theory Spec2Isabelle
  imports Main
begin

section \<open>JavaScript strings and values\<close>

text \<open>
  The migration tool is a Node.js program. Its strings are modelled as \<^typ>\<open>string\<close>,
  one \<^typ>\<open>char\<close> per UTF-16 code unit in the range U+0000 to U+00FF; identifiers with
  code units beyond that range are outside the model. Numbers that reach the modelled
  functions are SQL Server catalogue integers or \<open>null\<close>: \<^typ>\<open>int option\<close>.
\<close>

subsection \<open>\<open>String.prototype.toLowerCase\<close> and \<open>trim\<close>\<close>

definition upper_chars :: "char list" where
  "upper_chars = ''ABCDEFGHIJKLMNOPQRSTUVWXYZ'' @
     [CHR 0xC0, CHR 0xC1, CHR 0xC2, CHR 0xC3, CHR 0xC4, CHR 0xC5, CHR 0xC6, CHR 0xC7,
      CHR 0xC8, CHR 0xC9, CHR 0xCA, CHR 0xCB, CHR 0xCC, CHR 0xCD, CHR 0xCE, CHR 0xCF,
      CHR 0xD0, CHR 0xD1, CHR 0xD2, CHR 0xD3, CHR 0xD4, CHR 0xD5, CHR 0xD6,
      CHR 0xD8, CHR 0xD9, CHR 0xDA, CHR 0xDB, CHR 0xDC, CHR 0xDD, CHR 0xDE]"

definition lower_chars :: "char list" where
  "lower_chars = ''abcdefghijklmnopqrstuvwxyz'' @
     [CHR 0xE0, CHR 0xE1, CHR 0xE2, CHR 0xE3, CHR 0xE4, CHR 0xE5, CHR 0xE6, CHR 0xE7,
      CHR 0xE8, CHR 0xE9, CHR 0xEA, CHR 0xEB, CHR 0xEC, CHR 0xED, CHR 0xEE, CHR 0xEF,
      CHR 0xF0, CHR 0xF1, CHR 0xF2, CHR 0xF3, CHR 0xF4, CHR 0xF5, CHR 0xF6,
      CHR 0xF8, CHR 0xF9, CHR 0xFA, CHR 0xFB, CHR 0xFC, CHR 0xFD, CHR 0xFE]"

definition toLowerChar :: "char \<Rightarrow> char" where
  "toLowerChar c = (case map_of (zip upper_chars lower_chars) c of Some l \<Rightarrow> l | None \<Rightarrow> c)"

definition toLowerCase :: "string \<Rightarrow> string" where
  "toLowerCase s = map toLowerChar s"

text \<open>
  The white space and line terminators of ECMAScript that lie in the modelled range:
  TAB, LF, VT, FF, CR, SPACE and NO-BREAK SPACE.
\<close>

definition isWhiteSpace :: "char \<Rightarrow> bool" where
  "isWhiteSpace c \<longleftrightarrow>
     c \<in> set [CHR 0x09, CHR 0x0A, CHR 0x0B, CHR 0x0C, CHR 0x0D, CHR 0x20, CHR 0xA0]"

definition trim :: "string \<Rightarrow> string" where
  "trim s = rev (dropWhile isWhiteSpace (rev (dropWhile isWhiteSpace s)))"

fun startsWith :: "string \<Rightarrow> string \<Rightarrow> bool" where
  "startsWith s [] = True"
| "startsWith [] (p # ps) = False"
| "startsWith (c # cs) (p # ps) = (c = p \<and> startsWith cs ps)"

subsection \<open>Numbers in template literals, \<open>Array.prototype.join\<close>\<close>

definition digit_char :: "nat \<Rightarrow> char" where
  "digit_char d = ''0123456789'' ! (d mod 10)"

fun nat_to_string :: "nat \<Rightarrow> string" where
  "nat_to_string n =
     (if n < 10 then [digit_char n] else nat_to_string (n div 10) @ [digit_char (n mod 10)])"

declare nat_to_string.simps [simp del]

text \<open>\<open>`${n}`\<close> for an integer \<open>n\<close>: its decimal digits, with a minus sign below zero.\<close>

definition number_to_string :: "int \<Rightarrow> string" where
  "number_to_string n =
     (if n < 0 then CHR ''-'' # nat_to_string (nat (- n)) else nat_to_string (nat n))"

fun join :: "string \<Rightarrow> string list \<Rightarrow> string" where
  "join sep [] = []"
| "join sep [x] = x"
| "join sep (x # y # ys) = x @ sep @ join sep (y # ys)"

subsection \<open>Property access on an object literal\<close>

text \<open>
  \<open>obj[key]\<close> on an object literal finds the literal's own properties and, failing
  that, the members every object inherits from \<open>Object.prototype\<close>. The lookup tables of
  the program are such literals with string values, so a lookup yields a string, an
  inherited member, or \<open>undefined\<close> (\<^const>\<open>None\<close>).
\<close>

datatype js_value = JString string | JInherited string

definition Object_prototype_keys :: "string list" where
  "Object_prototype_keys =
     [''constructor'', ''__defineGetter__'', ''__defineSetter__'', ''hasOwnProperty'',
      ''__lookupGetter__'', ''__lookupSetter__'', ''isPrototypeOf'',
      ''propertyIsEnumerable'', ''toString'', ''valueOf'', ''__proto__'',
      ''toLocaleString'']"

definition object_get :: "(string \<times> string) list \<Rightarrow> string \<Rightarrow> js_value option" where
  "object_get obj k =
     (case map_of obj k of
        Some v \<Rightarrow> Some (JString v)
      | None \<Rightarrow> if k \<in> set Object_prototype_keys then Some (JInherited k) else None)"

text \<open>Truthiness: \<open>undefined\<close> and the empty string are falsy, objects are truthy.\<close>

fun truthy :: "js_value option \<Rightarrow> bool" where
  "truthy None = False"
| "truthy (Some (JString s)) = (s \<noteq> [])"
| "truthy (Some (JInherited k)) = True"

section \<open>The state of a run\<close>

text \<open>
  The state the program's functions can touch: the statistics object of the migration
  run (\<open>stats\<close> of the migration script), the buffer of the run's logger, one entry
  \<open>(level, category, message)\<close> per call (the optional details object is left out), the
  lines written with \<open>console.warn\<close>, and the trace of the calls that leave the process:
  the statements sent to the target database and the per-table data transfers.
\<close>

record stats =
  tablesProcessed :: nat
  tablesCreated :: nat
  primaryKeysCreated :: nat
  foreignKeysCreated :: nat
  totalRowsMigrated :: nat
  errors :: nat
  warnings :: nat

text \<open>
  The one statement \<open>createForeignKeys\<close> builds, by the pieces interpolated into its
  fixed text: \<open>ALTER TABLE\<close> table \<open>ADD CONSTRAINT\<close> name \<open>FOREIGN KEY (\<close>columns\<open>)
  REFERENCES\<close> table \<open>(\<close>columns\<open>) ON DELETE\<close> action \<open>ON UPDATE\<close> action.
\<close>

datatype sql_stmt =
  AlterTableAddForeignKey string string string string string js_value js_value

datatype event =
  PgQuery sql_stmt
| MigrateTableData string "string option"
| ResetSequences string "string option"

record world =
  stats :: stats
  logger :: "(string \<times> string \<times> string) list"
  console :: "string list"
  trace :: "event list"

section \<open>type-mapper.js\<close>

definition TYPE_MAPPINGS :: "(string \<times> string) list" where
  "TYPE_MAPPINGS =
     [(''bigint'', ''BIGINT''),
      (''int'', ''INTEGER''),
      (''smallint'', ''SMALLINT''),
      (''tinyint'', ''SMALLINT''),
      (''bit'', ''BOOLEAN''),
      (''decimal'', ''DECIMAL''),
      (''numeric'', ''NUMERIC''),
      (''money'', ''DECIMAL(19,4)''),
      (''smallmoney'', ''DECIMAL(10,4)''),
      (''float'', ''DOUBLE PRECISION''),
      (''real'', ''REAL''),
      (''date'', ''DATE''),
      (''datetime'', ''TIMESTAMP''),
      (''datetime2'', ''TIMESTAMP''),
      (''datetimeoffset'', ''TIMESTAMP WITH TIME ZONE''),
      (''smalldatetime'', ''TIMESTAMP''),
      (''time'', ''TIME''),
      (''char'', ''CHAR''),
      (''varchar'', ''VARCHAR''),
      (''text'', ''TEXT''),
      (''nchar'', ''CHAR''),
      (''nvarchar'', ''VARCHAR''),
      (''ntext'', ''TEXT''),
      (''binary'', ''BYTEA''),
      (''varbinary'', ''BYTEA''),
      (''image'', ''BYTEA''),
      (''uniqueidentifier'', ''UUID''),
      (''xml'', ''XML''),
      (''sql_variant'', ''TEXT''),
      (''hierarchyid'', ''TEXT''),
      (''geometry'', ''TEXT''),
      (''geography'', ''TEXT''),
      (''rowversion'', ''BYTEA''),
      (''timestamp'', ''BYTEA''),
      (''sysname'', ''VARCHAR(128)'')]"

definition console_warn :: "string \<Rightarrow> world \<Rightarrow> world" where
  "console_warn msg w = w\<lparr>console := console w @ [msg]\<rparr>"

text \<open>\<open>maxLength && maxLength > 0\<close>: \<open>null\<close> and \<open>0\<close> are falsy.\<close>

definition positive_length :: "int option \<Rightarrow> bool" where
  "positive_length maxLength =
     (case maxLength of None \<Rightarrow> False | Some n \<Rightarrow> n \<noteq> 0 \<and> n > 0)"

text \<open>\<open>scale !== null && scale >= 0 && scale <= 6\<close>\<close>

definition scale_in_range :: "int option \<Rightarrow> bool" where
  "scale_in_range scale = (case scale of None \<Rightarrow> False | Some s \<Rightarrow> s \<ge> 0 \<and> s \<le> 6)"

definition mapDataType ::
  "string \<Rightarrow> int option \<Rightarrow> int option \<Rightarrow> int option \<Rightarrow> world \<Rightarrow> js_value \<times> world" where
  "mapDataType mssqlType maxLength precision scale w =
     (let typeLower = trim (toLowerCase mssqlType) in
      if (typeLower = ''varchar'' \<or> typeLower = ''nvarchar'') \<and> maxLength = Some (- 1)
      then (JString ''TEXT'', w)
      else if typeLower = ''varbinary'' \<and> maxLength = Some (- 1)
      then (JString ''BYTEA'', w)
      else if typeLower = ''decimal'' \<or> typeLower = ''numeric''
      then (case precision of
              None \<Rightarrow> (JString ''NUMERIC'', w)
            | Some p \<Rightarrow>
                (case scale of
                   None \<Rightarrow> (JString (''NUMERIC('' @ number_to_string p @ '')''), w)
                 | Some s \<Rightarrow>
                     (JString (''NUMERIC('' @ number_to_string p @ '','' @
                        number_to_string s @ '')''), w)))
      else if typeLower = ''char'' \<or> typeLower = ''nchar''
      then (if positive_length maxLength
            then (let length = (if typeLower = ''nchar'' then the maxLength div 2
                                else the maxLength)
                  in (JString (''CHAR('' @ number_to_string length @ '')''), w))
            else (JString ''CHAR(1)'', w))
      else if typeLower = ''varchar'' \<or> typeLower = ''nvarchar''
      then (if positive_length maxLength
            then (let length = (if typeLower = ''nvarchar'' then the maxLength div 2
                                else the maxLength)
                  in (JString (''VARCHAR('' @ number_to_string length @ '')''), w))
            else (JString ''VARCHAR'', w))
      else if typeLower = ''binary'' \<or> typeLower = ''varbinary''
      then (JString ''BYTEA'', w)
      else if typeLower = ''float''
      then (if (case precision of None \<Rightarrow> False | Some p \<Rightarrow> p \<le> 24)
            then (JString ''REAL'', w)
            else (JString ''DOUBLE PRECISION'', w))
      else if typeLower = ''datetime2''
      then (if scale_in_range scale
            then (JString (''TIMESTAMP('' @ number_to_string (the scale) @ '')''), w)
            else (JString ''TIMESTAMP'', w))
      else if typeLower = ''time''
      then (if scale_in_range scale
            then (JString (''TIME('' @ number_to_string (the scale) @ '')''), w)
            else (JString ''TIME'', w))
      else if typeLower = ''datetimeoffset''
      then (if scale_in_range scale
            then (JString (''TIMESTAMP('' @ number_to_string (the scale) @
                    '') WITH TIME ZONE''), w)
            else (JString ''TIMESTAMP WITH TIME ZONE'', w))
      else (let mappedType = object_get TYPE_MAPPINGS typeLower in
            if truthy mappedType then (the mappedType, w)
            else (JString ''TEXT'',
                  console_warn (''Unknown MSSQL type: '' @ mssqlType @ '', defaulting to TEXT'') w)))"

text \<open>\<open>escapeIdentifier\<close>: every double quote doubled, the whole wrapped in double quotes.\<close>

definition dquote :: char where
  "dquote = CHR 0x22"

definition squote :: char where
  "squote = CHR 0x27"

definition escapeIdentifier :: "string \<Rightarrow> string" where
  "escapeIdentifier identifier =
     [dquote] @ concat (map (\<lambda>c. if c = dquote then [dquote, dquote] else [c]) identifier) @
     [dquote]"

text \<open>
  \<open>defaultValue.replace(/^\(+|\)+$/g, '')\<close>: the run of opening parentheses at the start
  and the run of closing parentheses at the end are removed; nothing else is.
\<close>

definition strip_outer_parens :: "string \<Rightarrow> string" where
  "strip_outer_parens s =
     rev (dropWhile (\<lambda>c. c = CHR '')'') (rev (dropWhile (\<lambda>c. c = CHR ''('') s)))"

definition functionMappings :: "(string \<times> string) list" where
  "functionMappings =
     [(''getdate()'', ''CURRENT_TIMESTAMP''),
      (''getutcdate()'', ''CURRENT_TIMESTAMP AT TIME ZONE '' @ [squote] @ ''UTC'' @ [squote]),
      (''sysdatetime()'', ''CURRENT_TIMESTAMP''),
      (''sysutcdatetime()'', ''CURRENT_TIMESTAMP AT TIME ZONE '' @ [squote] @ ''UTC'' @ [squote]),
      (''sysdatetimeoffset()'', ''CURRENT_TIMESTAMP''),
      (''newid()'', ''gen_random_uuid()''),
      (''newsequentialid()'', ''gen_random_uuid()''),
      (''user_name()'', ''CURRENT_USER''),
      (''suser_sname()'', ''CURRENT_USER''),
      (''host_name()'', ''inet_client_addr()'')]"

definition isDigit :: "char \<Rightarrow> bool" where
  "isDigit c \<longleftrightarrow> c \<in> set ''0123456789''"

text \<open>\<open>/^-?\d+(\.\d+)?$/.test(value)\<close>\<close>

definition numeric_literal :: "string \<Rightarrow> bool" where
  "numeric_literal s =
     (let unsigned = (case s of [] \<Rightarrow> s | c # r \<Rightarrow> if c = CHR ''-'' then r else s);
          integral = takeWhile isDigit unsigned;
          rest = dropWhile isDigit unsigned
      in integral \<noteq> [] \<and>
         (case rest of
            [] \<Rightarrow> True
          | c # fraction \<Rightarrow> c = CHR ''.'' \<and> fraction \<noteq> [] \<and> list_all isDigit fraction))"

text \<open>
  \<open>convertDefaultValue\<close>: the default is a string or \<open>null\<close>; the result is \<open>null\<close>
  (\<^const>\<open>None\<close>), a string, or whatever the lookup in \<open>functionMappings\<close> yields.
\<close>

definition convertDefaultValue :: "string option \<Rightarrow> string \<Rightarrow> js_value option" where
  "convertDefaultValue defaultValue dataType =
     (case defaultValue of
        None \<Rightarrow> None
      | Some dv \<Rightarrow>
          if dv = [] then None
          else
            (let val = strip_outer_parens dv;
                 lowerValue = toLowerCase val in
             if truthy (object_get functionMappings lowerValue)
             then object_get functionMappings lowerValue
             else if startsWith val [CHR ''N'', squote] \<or> startsWith val [squote]
             then Some (JString (if startsWith val [CHR ''N'', squote] then tl val else val))
             else if numeric_literal val
             then Some (JString val)
             else if (toLowerCase dataType = ''boolean'' \<or> toLowerCase dataType = ''bit'')
                     \<and> (val = ''1'' \<or> toLowerCase val = ''true'')
             then Some (JString ''TRUE'')
             else if (toLowerCase dataType = ''boolean'' \<or> toLowerCase dataType = ''bit'')
                     \<and> (val = ''0'' \<or> toLowerCase val = ''false'')
             then Some (JString ''FALSE'')
             else Some (JString val)))"

section \<open>The migration script\<close>

subsection \<open>Catalogue rows\<close>

text \<open>
  A table row as \<open>getTables\<close> returns it has two strings. The rows
  \<open>sortTablesByDependencies\<close> returns are built by destructuring the result of
  \<open>split\<close>, so their \<open>table_name\<close> may be \<open>undefined\<close>: \<^typ>\<open>string option\<close>.
\<close>

record 'n table_row =
  schema_name :: string
  table_name :: 'n

record foreign_key =
  name :: string
  tableSchema :: string
  tableName :: string
  columns :: "string list"
  referencedSchema :: string
  referencedTable :: string
  referencedColumns :: "string list"
  deleteAction :: string
  updateAction :: string

datatype error = TypeError | RecursionBudgetExhausted

definition log_call :: "string \<Rightarrow> string \<Rightarrow> string \<Rightarrow> world \<Rightarrow> world" where
  "log_call level category message w = w\<lparr>logger := logger w @ [(level, category, message)]\<rparr>"

text \<open>\<open>`${v}`\<close> for a string or \<open>undefined\<close>.\<close>

definition template_string :: "string option \<Rightarrow> string" where
  "template_string v = (case v of None \<Rightarrow> ''undefined'' | Some s \<Rightarrow> s)"

subsection \<open>Identifiers and foreign-key statements\<close>

text \<open>
  \<open>`${schemaName}_${tableName}`\<close>: the target table identifier, written out in
  \<open>createTable\<close>, \<open>createForeignKeys\<close>, \<open>migrateTableData\<close> and \<open>resetSequences\<close>.
\<close>

definition fullTableName :: "string \<Rightarrow> string \<Rightarrow> string" where
  "fullTableName schemaName tblName = schemaName @ ''_'' @ tblName"

definition referential_mappings :: "(string \<times> string) list" where
  "referential_mappings =
     [(''NO_ACTION'', ''NO ACTION''),
      (''CASCADE'', ''CASCADE''),
      (''SET_NULL'', ''SET NULL''),
      (''SET_DEFAULT'', ''SET DEFAULT'')]"

definition convertReferentialAction :: "string \<Rightarrow> js_value" where
  "convertReferentialAction action =
     (if truthy (object_get referential_mappings action)
      then the (object_get referential_mappings action)
      else JString ''NO ACTION'')"

definition alter_statement :: "foreign_key \<Rightarrow> sql_stmt" where
  "alter_statement fk =
     (let sourceTable = fullTableName (tableSchema fk) (tableName fk);
          targetTable = fullTableName (referencedSchema fk) (referencedTable fk);
          fkName = escapeIdentifier (''fk_'' @ sourceTable @ ''_'' @ join ''_'' (columns fk));
          sourceColumns = join '', '' (map escapeIdentifier (columns fk));
          targetColumns = join '', '' (map escapeIdentifier (referencedColumns fk))
      in AlterTableAddForeignKey (escapeIdentifier sourceTable) fkName sourceColumns
           (escapeIdentifier targetTable) targetColumns
           (convertReferentialAction (deleteAction fk))
           (convertReferentialAction (updateAction fk)))"

text \<open>
  The target database is a collaborator: given the trace so far and a statement, it
  accepts the statement (\<^const>\<open>None\<close>) or throws an error with a message.
\<close>

type_synonym pg_server = "event list \<Rightarrow> sql_stmt \<Rightarrow> string option"

definition unquoted :: "string \<Rightarrow> string" where
  "unquoted s = filter (\<lambda>c. c \<noteq> dquote) s"

definition createForeignKey :: "pg_server \<Rightarrow> foreign_key \<Rightarrow> world \<Rightarrow> world" where
  "createForeignKey pg fk w =
     (let sourceTable = fullTableName (tableSchema fk) (tableName fk);
          fkName = escapeIdentifier (''fk_'' @ sourceTable @ ''_'' @ join ''_'' (columns fk));
          alterSQL = alter_statement fk;
          w1 = log_call ''INFO'' ''FOREIGN_KEY''
                 (''Creating foreign key '' @ [dquote] @ unquoted fkName @ [dquote] @
                  '' on table '' @ [dquote] @ sourceTable @ [dquote]) w;
          w2 = w1\<lparr>trace := trace w1 @ [PgQuery alterSQL]\<rparr>
      in case pg (trace w1) alterSQL of
           None \<Rightarrow>
             (let w3 = log_call ''SUCCESS'' ''FK_CREATION''
                         (''Successfully created foreign key '' @ [dquote] @ unquoted fkName @
                          [dquote] @ '' on table '' @ [dquote] @ sourceTable @ [dquote]) w2
              in w3\<lparr>stats := (stats w3)\<lparr>foreignKeysCreated :=
                                   Suc (foreignKeysCreated (stats w3))\<rparr>\<rparr>)
         | Some message \<Rightarrow>
             (let w3 = log_call ''ERROR'' ''FK_CREATION''
                         (''Failed to create foreign key on table '' @ [dquote] @ sourceTable @
                          [dquote] @ '': '' @ message) w2
              in w3\<lparr>stats := (stats w3)\<lparr>errors := Suc (errors (stats w3))\<rparr>\<rparr>))"

definition createForeignKeys :: "pg_server \<Rightarrow> foreign_key list \<Rightarrow> world \<Rightarrow> world" where
  "createForeignKeys pg foreignKeys w =
     fold (createForeignKey pg) foreignKeys
       (log_call ''INFO'' ''FK_CREATION''
          (''Creating '' @ nat_to_string (length foreignKeys) @ '' foreign key constraints...'')
          (log_call ''SECTION'' [] ''FOREIGN KEY CREATION'' w))"

subsection \<open>\<open>sortTablesByDependencies\<close>\<close>

text \<open>\<open>`${table.schema_name}.${table.table_name}`\<close>: the key of a table in the resolver.\<close>

definition fullName :: "string table_row \<Rightarrow> string" where
  "fullName t = schema_name t @ ''.'' @ table_name t"

text \<open>
  A \<open>Set\<close> of strings that is iterated is a list without repetitions in insertion
  order; \<open>add\<close> appends a new element and leaves the set alone otherwise. The sets that
  are only tested for membership (\<open>tableNames\<close>, \<open>visited\<close>, \<open>visiting\<close>) are
  \<^typ>\<open>string set\<close>. The \<open>Map\<close> \<open>dependencies\<close> is only read with \<open>get\<close>:
  \<^typ>\<open>string \<rightharpoonup> string list\<close>.
\<close>

definition set_add :: "string list \<Rightarrow> string \<Rightarrow> string list" where
  "set_add xs x = (if x \<in> set xs then xs else xs @ [x])"

definition initial_dependencies :: "string table_row list \<Rightarrow> (string \<rightharpoonup> string list)" where
  "initial_dependencies tables = fold (\<lambda>t m. m(fullName t \<mapsto> [])) tables Map.empty"

text \<open>
  One step of the loop over the foreign keys. \<open>dependencies.get(source).add(target)\<close>
  throws a \<open>TypeError\<close> when \<open>get\<close> returns \<open>undefined\<close>.
\<close>

definition add_dependency ::
  "string set \<Rightarrow> foreign_key \<Rightarrow> (string \<rightharpoonup> string list) \<Rightarrow> error + (string \<rightharpoonup> string list)" where
  "add_dependency tableNames fk dependencies =
     (let source = tableSchema fk @ ''.'' @ tableName fk;
          target = referencedSchema fk @ ''.'' @ referencedTable fk
      in if source \<in> tableNames \<and> target \<in> tableNames \<and> source \<noteq> target
         then (case dependencies source of
                 None \<Rightarrow> Inl TypeError
               | Some deps \<Rightarrow> Inr (dependencies(source \<mapsto> set_add deps target)))
         else Inr dependencies)"

fun build_dependencies ::
  "string set \<Rightarrow> foreign_key list \<Rightarrow> (string \<rightharpoonup> string list) \<Rightarrow> error + (string \<rightharpoonup> string list)" where
  "build_dependencies tableNames [] dependencies = Inr dependencies"
| "build_dependencies tableNames (fk # fks) dependencies =
     (case add_dependency tableNames fk dependencies of
        Inl e \<Rightarrow> Inl e
      | Inr dependencies' \<Rightarrow> build_dependencies tableNames fks dependencies')"

record dfs_state =
  sorted_acc :: "string list"
  visited :: "string set"
  visiting :: "string set"
  env :: world

definition cycle_log_entry :: "string \<Rightarrow> string \<times> string \<times> string" where
  "cycle_log_entry tblName =
     (''WARNING'', ''DEPENDENCY'',
      ''Circular dependency detected involving table '' @ [dquote] @ tblName @ [dquote])"

text \<open>The two statements of the cycle branch: \<open>logger.warning\<close>, then \<open>stats.warnings++\<close>.\<close>

definition cycle_warning :: "string \<Rightarrow> world \<Rightarrow> world" where
  "cycle_warning tblName w =
     (let w1 = w\<lparr>logger := logger w @ [cycle_log_entry tblName]\<rparr>
      in w1\<lparr>stats := (stats w1)\<lparr>warnings := Suc (warnings (stats w1))\<rparr>\<rparr>)"

text \<open>
  The recursive \<open>visit\<close> and its loop over the dependencies of a table. The first
  argument bounds the depth of the recursion: a call that would go deeper returns
  \<^const>\<open>RecursionBudgetExhausted\<close>, so a recursion that never ends is a result of the
  model for every bound.
\<close>

fun visit :: "nat \<Rightarrow> (string \<rightharpoonup> string list) \<Rightarrow> string \<Rightarrow> dfs_state \<Rightarrow> error + dfs_state"
  and visit_each ::
    "nat \<Rightarrow> (string \<rightharpoonup> string list) \<Rightarrow> string list \<Rightarrow> dfs_state \<Rightarrow> error + dfs_state" where
  "visit 0 dependencies tblName st = Inl RecursionBudgetExhausted"
| "visit (Suc depth) dependencies tblName st =
     (if tblName \<in> visited st then Inr st
      else if tblName \<in> visiting st
      then Inr (st\<lparr>env := cycle_warning tblName (env st)\<rparr>)
      else
        (let deps = (case dependencies tblName of None \<Rightarrow> [] | Some d \<Rightarrow> d) in
         case visit_each depth dependencies deps
                (st\<lparr>visiting := insert tblName (visiting st)\<rparr>) of
           Inl e \<Rightarrow> Inl e
         | Inr st' \<Rightarrow>
             Inr (st'\<lparr>visiting := visiting st' - {tblName},
                      visited := insert tblName (visited st'),
                      sorted_acc := sorted_acc st' @ [tblName]\<rparr>)))"
| "visit_each depth dependencies [] st = Inr st"
| "visit_each depth dependencies (dep # deps) st =
     (case visit depth dependencies dep st of
        Inl e \<Rightarrow> Inl e
      | Inr st' \<Rightarrow> visit_each depth dependencies deps st')"

text \<open>The final loop: \<open>for (const table of tables) visit(fullName)\<close>.\<close>

fun visit_tables ::
  "nat \<Rightarrow> (string \<rightharpoonup> string list) \<Rightarrow> string table_row list \<Rightarrow> dfs_state \<Rightarrow> error + dfs_state" where
  "visit_tables depth dependencies [] st = Inr st"
| "visit_tables depth dependencies (t # ts) st =
     (case visit depth dependencies (fullName t) st of
        Inl e \<Rightarrow> Inl e
      | Inr st' \<Rightarrow> visit_tables depth dependencies ts st')"

text \<open>
  \<open>name.split('.')\<close>, as its first segment and the list of the others, and the
  destructuring \<open>[schema, table]\<close> of it.
\<close>

fun split_dot :: "string \<Rightarrow> string \<times> string list" where
  "split_dot [] = ([], [])"
| "split_dot (c # cs) =
     (let (seg, segs) = split_dot cs in
      if c = CHR ''.'' then ([], seg # segs) else (c # seg, segs))"

definition table_of_name :: "string \<Rightarrow> string option table_row" where
  "table_of_name n =
     (let (schema, segs) = split_dot n in
      \<lparr>schema_name = schema,
       table_name = (case segs of [] \<Rightarrow> None | table # _ \<Rightarrow> Some table)\<rparr>)"

definition sortTablesByDependencies_bounded ::
  "nat \<Rightarrow> string table_row list \<Rightarrow> foreign_key list \<Rightarrow> world \<Rightarrow>
   error + (string option table_row list \<times> world)" where
  "sortTablesByDependencies_bounded depth tables foreignKeys w =
     (let tableNames = set (map fullName tables) in
      case build_dependencies tableNames foreignKeys (initial_dependencies tables) of
        Inl e \<Rightarrow> Inl e
      | Inr dependencies \<Rightarrow>
          (case visit_tables depth dependencies tables
                  \<lparr>sorted_acc = [], visited = {}, visiting = {}, env = w\<rparr> of
             Inl e \<Rightarrow> Inl e
           | Inr st \<Rightarrow> Inr (map table_of_name (sorted_acc st), env st)))"

text \<open>
  The recursion never goes deeper than one call per table and one more that returns at
  once (proved below: any larger bound gives the same result), so this is the function
  of the script.
\<close>

definition sortTablesByDependencies ::
  "string table_row list \<Rightarrow> foreign_key list \<Rightarrow> world \<Rightarrow>
   error + (string option table_row list \<times> world)" where
  "sortTablesByDependencies tables foreignKeys w =
     sortTablesByDependencies_bounded (Suc (length tables)) tables foreignKeys w"

subsection \<open>Phases 2 and 3 of \<open>migrate\<close>\<close>

text \<open>
  The data-load loop. \<open>tableMetadata\<close> has one entry per table under its full name;
  \<open>metadata.columns\<close> throws a \<open>TypeError\<close> when the reconstructed name has none. The
  row transfer itself is outside the model: each call of \<open>migrateTableData\<close> and
  \<open>resetSequences\<close> is recorded in the trace with its schema and table arguments.
\<close>

fun data_migration_loop ::
  "string set \<Rightarrow> string option table_row list \<Rightarrow> world \<Rightarrow> error option \<times> world" where
  "data_migration_loop metadataKeys [] w = (None, w)"
| "data_migration_loop metadataKeys (t # ts) w =
     (if schema_name t @ ''.'' @ template_string (table_name t) \<in> metadataKeys
      then data_migration_loop metadataKeys ts
             (w\<lparr>trace := trace w @ [MigrateTableData (schema_name t) (table_name t),
                                     ResetSequences (schema_name t) (table_name t)]\<rparr>)
      else (Some TypeError, w))"

text \<open>
  \<open>migrate\<close> from the call of \<open>createForeignKeys\<close> to the end of the data-load loop, on
  the tables of \<open>getTables\<close> and the foreign keys of \<open>getAllForeignKeys\<close>.
\<close>

definition migrate_phases ::
  "pg_server \<Rightarrow> string table_row list \<Rightarrow> foreign_key list \<Rightarrow> world \<Rightarrow> error option \<times> world" where
  "migrate_phases pg tables foreignKeys w =
     (let w1 = createForeignKeys pg foreignKeys w;
          w2 = log_call ''INFO'' ''PHASE'' ''Starting data migration for all tables...''
                 (log_call ''SECTION'' [] ''PHASE 3: DATA MIGRATION'' w1)
      in case sortTablesByDependencies tables foreignKeys w2 of
           Inl e \<Rightarrow> (Some e, w2)
         | Inr (sortedTables, w3) \<Rightarrow>
             data_migration_loop (set (map fullName tables)) sortedTables w3)"

subsection \<open>The state at the start of a run\<close>

definition initial_stats :: stats where
  "initial_stats = \<lparr>tablesProcessed = 0, tablesCreated = 0, primaryKeysCreated = 0,
     foreignKeysCreated = 0, totalRowsMigrated = 0, errors = 0, warnings = 0\<rparr>"

definition initial_world :: world where
  "initial_world = \<lparr>stats = initial_stats, logger = [], console = [], trace = []\<rparr>"

section \<open>Vocabulary of the properties\<close>

text \<open>\<open>precedes y x xs\<close>: some occurrence of \<open>x\<close> lies strictly after the first \<open>y\<close>.\<close>

definition precedes :: "'a \<Rightarrow> 'a \<Rightarrow> 'a list \<Rightarrow> bool" where
  "precedes y x xs \<longleftrightarrow> x \<in> set (tl (dropWhile (\<lambda>z. z \<noteq> y) xs))"

text \<open>
  The dependency graph on the resolver's keys: an edge from the table of a foreign key to
  the table it references, when both are tables of the migrated set and the keys differ.
\<close>

definition fk_source :: "foreign_key \<Rightarrow> string" where
  "fk_source fk = tableSchema fk @ ''.'' @ tableName fk"

definition fk_target :: "foreign_key \<Rightarrow> string" where
  "fk_target fk = referencedSchema fk @ ''.'' @ referencedTable fk"

definition dependency_edges ::
  "string table_row list \<Rightarrow> foreign_key list \<Rightarrow> (string \<times> string) set" where
  "dependency_edges tables foreignKeys =
     {(a, b). \<exists>fk. fk \<in> set foreignKeys \<and> a = fk_source fk \<and> b = fk_target fk \<and>
         a \<in> fullName ` set tables \<and> b \<in> fullName ` set tables \<and> a \<noteq> b}"

definition dot_free :: "string table_row \<Rightarrow> bool" where
  "dot_free t \<longleftrightarrow> CHR ''.'' \<notin> set (schema_name t) \<and> CHR ''.'' \<notin> set (table_name t)"

text \<open>A catalogue row as an object with both fields defined.\<close>

definition as_object :: "string table_row \<Rightarrow> string option table_row" where
  "as_object t = \<lparr>schema_name = schema_name t, table_name = Some (table_name t)\<rparr>"

text \<open>
  The table identifiers of the statements sent to the target database, and those of the
  data transfers (\<open>migrateTableData\<close> composes and escapes the identifier the same way),
  each in trace order.
\<close>

fun altered_tables :: "event list \<Rightarrow> string list" where
  "altered_tables [] = []"
| "altered_tables (PgQuery (AlterTableAddForeignKey t n cs rt rcs d u) # es) =
     t # altered_tables es"
| "altered_tables (e # es) = altered_tables es"

fun loaded_tables :: "event list \<Rightarrow> string list" where
  "loaded_tables [] = []"
| "loaded_tables (MigrateTableData s t # es) =
     escapeIdentifier (fullTableName s (template_string t)) # loaded_tables es"
| "loaded_tables (e # es) = loaded_tables es"

text \<open>
  A sequence of tables follows an order when it never has a table before one that the
  order places strictly earlier.
\<close>

definition follows_order :: "'a list \<Rightarrow> 'a list \<Rightarrow> bool" where
  "follows_order xs order \<longleftrightarrow> sorted_wrt (\<lambda>a b. \<not> precedes b a order) xs"

section \<open>Vocabulary of the resolver's proof\<close>

text \<open>The edges the \<open>dependencies\<close> map holds.\<close>

definition graph_of :: "(string \<rightharpoonup> string list) \<Rightarrow> (string \<times> string) set" where
  "graph_of D = {(x, y). \<exists>ds. D x = Some ds \<and> y \<in> set ds}"

text \<open>
  What a call of \<open>visit\<close> may change: it appends tables to the output and marks them
  visited, leaves \<open>visiting\<close> as it found it, and adds one log entry and one count per
  cycle warning.
\<close>

definition dfs_extends :: "dfs_state \<Rightarrow> dfs_state \<Rightarrow> bool" where
  "dfs_extends s s' \<longleftrightarrow>
     visiting s' = visiting s \<and>
     (\<exists>new names.
        sorted_acc s' = sorted_acc s @ new \<and> visited s' = visited s \<union> set new \<and>
        logger (env s') = logger (env s) @ map cycle_log_entry names \<and>
        stats (env s') = (stats (env s))\<lparr>warnings := warnings (stats (env s)) + length names\<rparr> \<and>
        console (env s') = console (env s) \<and> trace (env s') = trace (env s))"

text \<open>
  The invariant of the traversal: the output lists the visited tables once each, no
  table is both visited and in progress, and every dependency of a visited table is
  placed before it unless the dependency leads back to the table.
\<close>

definition dfs_inv :: "(string \<rightharpoonup> string list) \<Rightarrow> dfs_state \<Rightarrow> bool" where
  "dfs_inv D s \<longleftrightarrow>
     distinct (sorted_acc s) \<and> set (sorted_acc s) = visited s \<and>
     visited s \<inter> visiting s = {} \<and>
     (\<forall>x y. x \<in> visited s \<and> (x, y) \<in> graph_of D \<longrightarrow>
        precedes y x (sorted_acc s) \<or> (y, x) \<in> (graph_of D)\<^sup>+)"

text \<open>The edge a foreign key contributes to the graph over the table names \<open>T\<close>.\<close>

definition fk_edge :: "string set \<Rightarrow> foreign_key \<Rightarrow> (string \<times> string) set" where
  "fk_edge T fk =
     (if fk_source fk \<in> T \<and> fk_target fk \<in> T \<and> fk_source fk \<noteq> fk_target fk
      then {(fk_source fk, fk_target fk)} else {})"

text \<open>The state in which the traversal starts.\<close>

definition dfs_start :: "world \<Rightarrow> dfs_state" where
  "dfs_start w = \<lparr>sorted_acc = [], visited = {}, visiting = {}, env = w\<rparr>"

text \<open>
  The events of one step of the data-load loop, and the test the loop makes before it:
  \<open>tableMetadata\<close> has an entry under the name rebuilt from the row.
\<close>

definition transfer_events :: "string option table_row \<Rightarrow> event list" where
  "transfer_events t =
     [MigrateTableData (schema_name t) (table_name t),
      ResetSequences (schema_name t) (table_name t)]"

definition has_metadata :: "string table_row list \<Rightarrow> string option table_row \<Rightarrow> bool" where
  "has_metadata tables t \<longleftrightarrow>
     schema_name t @ ''.'' @ template_string (table_name t) \<in> set (map fullName tables)"

section \<open>A small catalogue\<close>

text \<open>Tables and single-column foreign keys to run the resolver on.\<close>

definition catalogue_table :: "string \<Rightarrow> string \<Rightarrow> string table_row" where
  "catalogue_table s t = \<lparr>schema_name = s, table_name = t\<rparr>"

definition reference :: "string \<Rightarrow> string \<Rightarrow> string \<Rightarrow> string \<Rightarrow> string \<Rightarrow> foreign_key" where
  "reference n s t rs rt =
     \<lparr>name = n, tableSchema = s, tableName = t, columns = [''ref_id''],
      referencedSchema = rs, referencedTable = rt, referencedColumns = [''id''],
      deleteAction = ''NO_ACTION'', updateAction = ''NO_ACTION''\<rparr>"

section \<open>Evaluating the string functions\<close>

lemmas string_eval =
  trim_def toLowerCase_def toLowerChar_def upper_chars_def lower_chars_def isWhiteSpace_def
  number_to_string_def digit_char_def object_get_def Object_prototype_keys_def

lemma nat_to_string_digit: "n < 10 \<Longrightarrow> nat_to_string n = [digit_char n]"
  by (simp add: nat_to_string.simps)

lemma typeLower_varchar: "trim (toLowerCase ''varchar'') = ''varchar''"
  by (simp add: string_eval)
lemma typeLower_nvarchar: "trim (toLowerCase ''nvarchar'') = ''nvarchar''"
  by (simp add: string_eval)
lemma typeLower_nchar: "trim (toLowerCase ''nchar'') = ''nchar''"
  by (simp add: string_eval)

lemma nat_to_string_10: "nat_to_string 10 = ''10''"
  by code_simp

lemma nat_to_string_not_Nil: "nat_to_string n \<noteq> []"
  by (subst nat_to_string.simps) simp

lemma nat_to_string_eq_1: "nat_to_string n = ''1'' \<longleftrightarrow> n = 1"
proof (cases "n < 10")
  case True
  then have "n \<in> {0, 1, 2, 3, 4, 5, 6, 7, 8, 9}" by auto
  then have "digit_char n = CHR ''1'' \<longleftrightarrow> n = 1"
    by (auto simp: digit_char_def)
  with True show ?thesis by (simp add: nat_to_string_digit)
next
  case False
  then have "nat_to_string n = nat_to_string (n div 10) @ [digit_char (n mod 10)]"
    by (subst nat_to_string.simps) simp
  with nat_to_string_not_Nil[of "n div 10"] False show ?thesis by auto
qed

lemma number_to_string_eq_1: "0 \<le> k \<Longrightarrow> number_to_string k = ''1'' \<longleftrightarrow> k = 1"
  by (auto simp: number_to_string_def nat_to_string_eq_1)

lemmas default_eval =
  convertDefaultValue_def strip_outer_parens_def functionMappings_def numeric_literal_def
  isDigit_def squote_def

section \<open>The type and default translator\<close>

text \<open>
  C8. \<open>mapDataType('varchar', -1, null, null)\<close> is \<open>'TEXT'\<close> and
  \<open>mapDataType('nvarchar', 20, null, null)\<close> is \<open>'VARCHAR(10)'\<close>. More generally, the
  length \<open>-1\<close> on \<open>varchar\<close> and \<open>nvarchar\<close> gives \<open>'TEXT'\<close> whatever the precision and
  scale, and every positive length of the wide types \<open>nvarchar\<close> and \<open>nchar\<close> is halved
  (rounding down) before it is written into the type. The state is left as it was.
\<close>

theorem mapDataType_sentinel_and_halving:
  "mapDataType ''varchar'' (Some (- 1)) None None w = (JString ''TEXT'', w)
   \<and> mapDataType ''nvarchar'' (Some 20) None None w = (JString ''VARCHAR(10)'', w)
   \<and> mapDataType ''varchar'' (Some (- 1)) precision scale w = (JString ''TEXT'', w)
   \<and> mapDataType ''nvarchar'' (Some (- 1)) precision scale w = (JString ''TEXT'', w)
   \<and> mapDataType ''nvarchar'' (Some (int (Suc n))) precision scale w =
        (JString (''VARCHAR('' @ number_to_string (int (Suc n) div 2) @ '')''), w)
   \<and> mapDataType ''nchar'' (Some (int (Suc n))) precision scale w =
        (JString (''CHAR('' @ number_to_string (int (Suc n) div 2) @ '')''), w)"
proof -
  have a: "mapDataType ''varchar'' (Some (- 1)) precision scale w = (JString ''TEXT'', w)"
    for precision scale
    by (simp add: mapDataType_def typeLower_varchar)
  have b: "mapDataType ''nvarchar'' (Some (- 1)) precision scale w = (JString ''TEXT'', w)"
    for precision scale
    by (simp add: mapDataType_def typeLower_nvarchar)
  have c: "mapDataType ''nvarchar'' (Some (int (Suc n))) precision scale w =
        (JString (''VARCHAR('' @ number_to_string (int (Suc n) div 2) @ '')''), w)"
    for precision scale n
    by (simp add: mapDataType_def typeLower_nvarchar positive_length_def Let_def)
  have d: "mapDataType ''nchar'' (Some (int (Suc n))) precision scale w =
        (JString (''CHAR('' @ number_to_string (int (Suc n) div 2) @ '')''), w)"
    for precision scale n
    by (simp add: mapDataType_def typeLower_nchar positive_length_def Let_def)
  have e: "mapDataType ''nvarchar'' (Some 20) None None w = (JString ''VARCHAR(10)'', w)"
    using c[of 19 None None] by (simp add: number_to_string_def nat_to_string_10)
  show ?thesis using a b c d e by simp
qed

text \<open>
  C9, as the code has it. \<open>mapDataType('nchar', 1, null, null)\<close> is \<open>'CHAR(0)'\<close>: every
  positive length of \<open>nchar\<close> is halved, rounding down. An absent length and every length
  that is not positive give the fallback \<open>'CHAR(1)'\<close>. The result is \<open>'CHAR(1)'\<close> exactly
  for these and for the lengths 2 and 3, whose halves are 1; no other length gives it.
\<close>

theorem nchar_floor_halving:
  "mapDataType ''nchar'' (Some 1) None None w = (JString ''CHAR(0)'', w)
   \<and> mapDataType ''nchar'' (Some (int (Suc n))) precision scale w =
        (JString (''CHAR('' @ number_to_string (int (Suc n) div 2) @ '')''), w)
   \<and> mapDataType ''nchar'' None precision scale w = (JString ''CHAR(1)'', w)
   \<and> mapDataType ''nchar'' (Some (- int n)) precision scale w = (JString ''CHAR(1)'', w)
   \<and> (fst (mapDataType ''nchar'' maxLength precision scale w) = JString ''CHAR(1)'' \<longleftrightarrow>
        maxLength = None \<or> (\<exists>m. maxLength = Some m \<and> (m \<le> 0 \<or> m = 2 \<or> m = 3)))"
proof -
  have a: "mapDataType ''nchar'' (Some (int (Suc n))) precision scale w =
        (JString (''CHAR('' @ number_to_string (int (Suc n) div 2) @ '')''), w)"
    for n precision scale
    by (simp add: mapDataType_def typeLower_nchar positive_length_def Let_def)
  have b: "mapDataType ''nchar'' (Some 1) None None w = (JString ''CHAR(0)'', w)"
    using a[of 0 None None] by (simp add: number_to_string_def nat_to_string_digit digit_char_def)
  have c: "mapDataType ''nchar'' None precision scale w = (JString ''CHAR(1)'', w)"
    by (simp add: mapDataType_def typeLower_nchar positive_length_def)
  have e: "mapDataType ''nchar'' (Some (- int n)) precision scale w = (JString ''CHAR(1)'', w)"
    by (simp add: mapDataType_def typeLower_nchar positive_length_def)
  have f: "fst (mapDataType ''nchar'' maxLength precision scale w) = JString ''CHAR(1)'' \<longleftrightarrow>
        maxLength = None \<or> (\<exists>m. maxLength = Some m \<and> (m \<le> 0 \<or> m = 2 \<or> m = 3))"
  proof (cases maxLength)
    case None
    then show ?thesis by (simp add: c)
  next
    case (Some m)
    show ?thesis
    proof (cases "0 < m")
      case False
      then have "mapDataType ''nchar'' (Some m) precision scale w = (JString ''CHAR(1)'', w)"
        by (simp add: mapDataType_def typeLower_nchar positive_length_def)
      with Some False show ?thesis by simp
    next
      case True
      then have r: "mapDataType ''nchar'' (Some m) precision scale w =
          (JString (''CHAR('' @ number_to_string (m div 2) @ '')''), w)"
        by (simp add: mapDataType_def typeLower_nchar positive_length_def Let_def)
      from True have "0 \<le> m div 2" by simp
      then have "number_to_string (m div 2) = ''1'' \<longleftrightarrow> m div 2 = 1"
        by (rule number_to_string_eq_1)
      moreover from True have "m div 2 = 1 \<longleftrightarrow> m = 2 \<or> m = 3" by presburger
      ultimately have "number_to_string (m div 2) = ''1'' \<longleftrightarrow> m = 2 \<or> m = 3" by simp
      with Some True r show ?thesis by simp
    qed
  qed
  from a b c e f show ?thesis by blast
qed

text \<open>
  The claim C9 says \<open>'CHAR(1)'\<close> is never produced for positive lengths. The lengths 2
  and 3 are positive and give it.
\<close>

theorem nchar_positive_length_char1:
  "mapDataType ''nchar'' (Some 2) None None initial_world = (JString ''CHAR(1)'', initial_world)
   \<and> mapDataType ''nchar'' (Some 3) None None initial_world = (JString ''CHAR(1)'', initial_world)
   \<and> (0::int) < 2 \<and> (0::int) < 3"
  by (simp add: mapDataType_def typeLower_nchar positive_length_def number_to_string_def
      nat_to_string_digit digit_char_def)

lemma toLowerChar_rparen: "toLowerChar c = CHR '')'' \<longleftrightarrow> c = CHR '')''"
  by (simp add: toLowerChar_def upper_chars_def lower_chars_def)

lemma strip_outer_parens_last:
  "strip_outer_parens s = [] \<or> last (strip_outer_parens s) \<noteq> CHR '')''"
proof -
  let ?r = "dropWhile (\<lambda>c. c = CHR '')'') (rev (dropWhile (\<lambda>c. c = CHR ''('') s))"
  have "?r = [] \<or> hd ?r \<noteq> CHR '')''"
    using hd_dropWhile[of "\<lambda>c. c = CHR '')''"] by blast
  then show ?thesis
    unfolding strip_outer_parens_def by (auto simp: last_rev)
qed

lemma functionMappings_never_found:
  "map_of functionMappings (toLowerCase (strip_outer_parens dv)) = None"
proof (rule ccontr)
  assume "map_of functionMappings (toLowerCase (strip_outer_parens dv)) \<noteq> None"
  then obtain v where "map_of functionMappings (toLowerCase (strip_outer_parens dv)) = Some v"
    by blast
  then have "(toLowerCase (strip_outer_parens dv), v) \<in> set functionMappings"
    by (rule map_of_SomeD)
  then have k: "toLowerCase (strip_outer_parens dv) \<noteq> []
      \<and> last (toLowerCase (strip_outer_parens dv)) = CHR '')''"
    by (auto simp: functionMappings_def)
  then have ne: "strip_outer_parens dv \<noteq> []"
    by (auto simp: toLowerCase_def)
  with k have "toLowerChar (last (strip_outer_parens dv)) = CHR '')''"
    by (simp add: toLowerCase_def last_map)
  then have "last (strip_outer_parens dv) = CHR '')''"
    by (simp add: toLowerChar_rparen)
  with ne strip_outer_parens_last[of dv] show False by blast
qed

text \<open>
  C4. The claim has \<open>convertDefaultValue('(getdate())', t) = 'CURRENT_TIMESTAMP'\<close>. The
  code strips the whole run of closing parentheses, the call's own included, so the
  wrapped calls come out as \<open>getdate(\<close>, \<open>newid(\<close>, \<open>suser_sname(\<close> and \<open>host_name(\<close>
  for every data type, and no default at all reaches an entry of the function table.
\<close>

theorem convertDefaultValue_wrapped_call:
  "convertDefaultValue (Some ''(getdate())'') dataType = Some (JString ''getdate('')
   \<and> convertDefaultValue (Some ''(newid())'') dataType = Some (JString ''newid('')
   \<and> convertDefaultValue (Some ''(suser_sname())'') dataType = Some (JString ''suser_sname('')
   \<and> convertDefaultValue (Some ''(host_name())'') dataType = Some (JString ''host_name('')
   \<and> map_of functionMappings (toLowerCase (strip_outer_parens dv)) = None"
proof -
  have "convertDefaultValue (Some ''(getdate())'') dataType = Some (JString ''getdate('')"
    by (simp add: default_eval string_eval)
  moreover have "convertDefaultValue (Some ''(newid())'') dataType = Some (JString ''newid('')"
    by (simp add: default_eval string_eval)
  moreover have
    "convertDefaultValue (Some ''(suser_sname())'') dataType = Some (JString ''suser_sname('')"
    by (simp add: default_eval string_eval)
  moreover have
    "convertDefaultValue (Some ''(host_name())'') dataType = Some (JString ''host_name('')"
    by (simp add: default_eval string_eval)
  ultimately show ?thesis
    using functionMappings_never_found[of dv] by simp
qed

text \<open>
  C6. The claim has the defaults \<open>1\<close> and \<open>0\<close> of a boolean column come out as \<open>TRUE\<close>
  and \<open>FALSE\<close>. The code tests for a numeric literal before it looks at the column type,
  so they come out as they went in; \<open>true\<close> and \<open>false\<close> are normalised.
\<close>

theorem convertDefaultValue_boolean_digits:
  "convertDefaultValue (Some ''((1))'') ''BOOLEAN'' = Some (JString ''1'')
   \<and> convertDefaultValue (Some ''((0))'') ''BOOLEAN'' = Some (JString ''0'')
   \<and> convertDefaultValue (Some ''1'') ''bit'' = Some (JString ''1'')
   \<and> convertDefaultValue (Some ''0'') ''bit'' = Some (JString ''0'')
   \<and> convertDefaultValue (Some ''(true)'') ''BOOLEAN'' = Some (JString ''TRUE'')
   \<and> convertDefaultValue (Some ''(false)'') ''BOOLEAN'' = Some (JString ''FALSE'')"
  by (simp add: default_eval string_eval)

text \<open>
  C5, as the code has it. For a type name that, lower-cased and trimmed, is no key of
  \<open>TYPE_MAPPINGS\<close> (which holds every special-cased name too) and no member inherited
  from \<open>Object.prototype\<close>, \<open>mapDataType\<close> returns \<open>'TEXT'\<close> and writes one line with
  \<open>console.warn\<close>; the statistics of the run, its warning counter included, and the
  run's log stay as they were. The function returns for every type name, and for no
  input at all does it change the statistics.
\<close>

theorem mapDataType_unknown_type:
  assumes "trim (toLowerCase mssqlType) \<notin> fst ` set TYPE_MAPPINGS"
    and "trim (toLowerCase mssqlType) \<notin> set Object_prototype_keys"
  shows "mapDataType mssqlType maxLength precision scale w =
           (JString ''TEXT'',
            w\<lparr>console := console w @
                 [''Unknown MSSQL type: '' @ mssqlType @ '', defaulting to TEXT'']\<rparr>)
         \<and> stats (snd (mapDataType mssqlType maxLength precision scale w)) = stats w
         \<and> logger (snd (mapDataType mssqlType maxLength precision scale w)) = logger w
         \<and> stats (snd (mapDataType anyType anyLength anyPrecision anyScale w)) = stats w"
proof -
  let ?t = "trim (toLowerCase mssqlType)"
  have none: "map_of TYPE_MAPPINGS ?t = None"
    using assms(1) by (simp add: map_of_eq_None_iff)
  have og: "object_get TYPE_MAPPINGS ?t = None"
    using none assms(2) by (simp add: object_get_def)
  have special: "?t \<noteq> ''varchar''" "?t \<noteq> ''nvarchar''" "?t \<noteq> ''varbinary''" "?t \<noteq> ''decimal''"
    "?t \<noteq> ''numeric''" "?t \<noteq> ''char''" "?t \<noteq> ''nchar''" "?t \<noteq> ''binary''" "?t \<noteq> ''float''"
    "?t \<noteq> ''datetime2''" "?t \<noteq> ''time''" "?t \<noteq> ''datetimeoffset''"
    using assms(1) by (auto simp: TYPE_MAPPINGS_def)
  have frame: "stats (snd (mapDataType anyType anyLength anyPrecision anyScale w)) = stats w"
    by (simp add: mapDataType_def Let_def console_warn_def split: option.splits)
  show ?thesis
    using special og frame by (simp add: mapDataType_def Let_def console_warn_def)
qed

theorem mapDataType_unknown_type_witness:
  "trim (toLowerCase ''foo'') \<notin> fst ` set TYPE_MAPPINGS
   \<and> trim (toLowerCase ''foo'') \<notin> set Object_prototype_keys
   \<and> mapDataType ''foo'' None None None initial_world =
           (JString ''TEXT'',
            initial_world\<lparr>console := console initial_world @
                 [''Unknown MSSQL type: '' @ ''foo'' @ '', defaulting to TEXT'']\<rparr>)
   \<and> stats (snd (mapDataType ''foo'' None None None initial_world)) = stats initial_world"
proof -
  have h1: "trim (toLowerCase ''foo'') \<notin> fst ` set TYPE_MAPPINGS"
    by (simp add: string_eval TYPE_MAPPINGS_def)
  have h2: "trim (toLowerCase ''foo'') \<notin> set Object_prototype_keys"
    by (simp add: string_eval)
  show ?thesis
    using h1 h2 mapDataType_unknown_type[OF h1 h2, of None None None initial_world] by simp
qed

text \<open>
  The claim C5 says the warning counter of the run is incremented. For the unknown type
  \<open>foo\<close> the result is \<open>'TEXT'\<close>, the warning goes to the console, and the counter is
  what it was.
\<close>

theorem unknown_type_warning_counter:
  "fst (mapDataType ''foo'' None None None initial_world) = JString ''TEXT''
   \<and> warnings (stats (snd (mapDataType ''foo'' None None None initial_world))) =
       warnings (stats initial_world)
   \<and> console (snd (mapDataType ''foo'' None None None initial_world)) =
       [''Unknown MSSQL type: foo, defaulting to TEXT'']"
  by (simp add: mapDataType_def string_eval TYPE_MAPPINGS_def console_warn_def initial_world_def)

section \<open>The identifier codec\<close>

text \<open>
  C7, as the code has it. The target identifier is the schema, an underscore and the
  table. Source identifiers may contain underscores; on schema names that contain none,
  the composition is injective.
\<close>

theorem fullTableName_injective:
  assumes "CHR ''_'' \<notin> set schema1" and "CHR ''_'' \<notin> set schema2"
    and "fullTableName schema1 table1 = fullTableName schema2 table2"
  shows "schema1 = schema2 \<and> table1 = table2
         \<and> fullTableName schema1 table1 = schema1 @ ''_'' @ table1"
proof -
  have eq: "schema1 @ CHR ''_'' # table1 = schema2 @ CHR ''_'' # table2"
    using assms(3) by (simp add: fullTableName_def)
  have "takeWhile (\<lambda>c. c \<noteq> CHR ''_'') (schema1 @ CHR ''_'' # table1) = schema1"
    using assms(1) by (subst takeWhile_append2) auto
  moreover have "takeWhile (\<lambda>c. c \<noteq> CHR ''_'') (schema2 @ CHR ''_'' # table2) = schema2"
    using assms(2) by (subst takeWhile_append2) auto
  ultimately have "schema1 = schema2" using eq by simp
  with eq show ?thesis by (simp add: fullTableName_def)
qed

theorem fullTableName_injective_witness:
  "CHR ''_'' \<notin> set ''dbo'' \<and> CHR ''_'' \<notin> set ''dbo''
   \<and> fullTableName ''dbo'' ''order_items'' = fullTableName ''dbo'' ''order_items''
   \<and> fullTableName ''dbo'' ''order_items'' = ''dbo_order_items''"
proof -
  have h: "CHR ''_'' \<notin> set ''dbo''" by simp
  show ?thesis
    using h fullTableName_injective[OF h h, of "''order_items''" "''order_items''"]
    by (simp add: fullTableName_def)
qed

text \<open>
  The claim C7 says the separator cannot appear in a source identifier and the
  composition is injective. Two distinct pairs with the same identifier:
\<close>

theorem fullTableName_collision:
  "fullTableName ''a_b'' ''c'' = fullTableName ''a'' ''b_c''
   \<and> (''a_b'', ''c'') \<noteq> (''a'', ''b_c'')
   \<and> CHR ''_'' \<in> set ''a_b''"
  by (simp add: fullTableName_def)

section \<open>The dependency resolver\<close>

subsection \<open>What a visit changes\<close>

lemma visit_visiting:
  "visit depth D n s = Inr s' \<Longrightarrow> visiting s' = visiting s"
  "visit_each depth D ds s = Inr s' \<Longrightarrow> visiting s' = visiting s"
proof (induction depth D n s and depth D ds s arbitrary: s' and s' rule: visit_visit_each.induct)
  case (1 D n st)
  then show ?case by simp
next
  case (2 depth D n st)
  show ?case
  proof (cases "n \<in> visited st \<or> n \<in> visiting st")
    case True
    with "2.prems" show ?thesis by (auto split: if_splits)
  next
    case False
    let ?deps = "case D n of None \<Rightarrow> [] | Some d \<Rightarrow> d"
    from False "2.prems" obtain s2 where
      s2: "visit_each depth D ?deps (st\<lparr>visiting := insert n (visiting st)\<rparr>) = Inr s2"
      and s': "s' = s2\<lparr>visiting := visiting s2 - {n}, visited := insert n (visited s2),
                       sorted_acc := sorted_acc s2 @ [n]\<rparr>"
      by (auto split: sum.splits)
    from "2.IH"[OF _ _ refl s2] False
    have "visiting s2 = insert n (visiting st)" by simp
    with s' False show ?thesis by auto
  qed
next
  case (3 depth D st)
  then show ?case by simp
next
  case (4 depth D dep deps st)
  from "4.prems" obtain s1 where s1: "visit depth D dep st = Inr s1"
    and r: "visit_each depth D deps s1 = Inr s'"
    by (auto split: sum.splits)
  from "4.IH"(1)[OF s1] "4.IH"(2)[OF s1 r] show ?case by simp
qed

lemma visit_SucE:
  assumes "visit (Suc depth) D n st = Inr s'"
  obtains (seen) "n \<in> visited st" "s' = st"
  | (cycle) "n \<notin> visited st" "n \<in> visiting st" "s' = st\<lparr>env := cycle_warning n (env st)\<rparr>"
  | (fresh) s2 where "n \<notin> visited st" "n \<notin> visiting st"
      "visit_each depth D (case D n of None \<Rightarrow> [] | Some d \<Rightarrow> d)
         (st\<lparr>visiting := insert n (visiting st)\<rparr>) = Inr s2"
      "s' = s2\<lparr>visiting := visiting s2 - {n}, visited := insert n (visited s2),
               sorted_acc := sorted_acc s2 @ [n]\<rparr>"
  using assms by (auto split: if_splits sum.splits)

lemma visit_each_ConsE:
  assumes "visit_each depth D (dep # deps) st = Inr s'"
  obtains s1 where "visit depth D dep st = Inr s1" "visit_each depth D deps s1 = Inr s'"
  using assms by (auto split: sum.splits)

lemma dfs_extends_refl: "dfs_extends s s"
proof -
  have "sorted_acc s = sorted_acc s @ [] \<and> visited s = visited s \<union> set [] \<and>
        logger (env s) = logger (env s) @ map cycle_log_entry [] \<and>
        stats (env s) = (stats (env s))\<lparr>warnings := warnings (stats (env s)) + length ([]::string list)\<rparr> \<and>
        console (env s) = console (env s) \<and> trace (env s) = trace (env s)"
    by simp
  then show ?thesis unfolding dfs_extends_def by blast
qed

lemma dfs_extends_trans:
  assumes "dfs_extends s1 s2" and "dfs_extends s2 s3"
  shows "dfs_extends s1 s3"
proof -
  from assms(1) obtain new1 names1 where a:
    "visiting s2 = visiting s1" "sorted_acc s2 = sorted_acc s1 @ new1"
    "visited s2 = visited s1 \<union> set new1"
    "logger (env s2) = logger (env s1) @ map cycle_log_entry names1"
    "stats (env s2) = (stats (env s1))\<lparr>warnings := warnings (stats (env s1)) + length names1\<rparr>"
    "console (env s2) = console (env s1)" "trace (env s2) = trace (env s1)"
    unfolding dfs_extends_def by blast
  from assms(2) obtain new2 names2 where b:
    "visiting s3 = visiting s2" "sorted_acc s3 = sorted_acc s2 @ new2"
    "visited s3 = visited s2 \<union> set new2"
    "logger (env s3) = logger (env s2) @ map cycle_log_entry names2"
    "stats (env s3) = (stats (env s2))\<lparr>warnings := warnings (stats (env s2)) + length names2\<rparr>"
    "console (env s3) = console (env s2)" "trace (env s3) = trace (env s2)"
    unfolding dfs_extends_def by blast
  have "sorted_acc s3 = sorted_acc s1 @ (new1 @ new2) \<and>
        visited s3 = visited s1 \<union> set (new1 @ new2) \<and>
        logger (env s3) = logger (env s1) @ map cycle_log_entry (names1 @ names2) \<and>
        stats (env s3) = (stats (env s1))\<lparr>warnings := warnings (stats (env s1)) + length (names1 @ names2)\<rparr> \<and>
        console (env s3) = console (env s1) \<and> trace (env s3) = trace (env s1)"
    using a b by (simp add: Un_assoc)
  moreover have "visiting s3 = visiting s1" using a b by simp
  ultimately show ?thesis unfolding dfs_extends_def by blast
qed

lemma dfs_extends_cycle: "dfs_extends st (st\<lparr>env := cycle_warning n (env st)\<rparr>)"
proof -
  let ?s = "st\<lparr>env := cycle_warning n (env st)\<rparr>"
  have "sorted_acc ?s = sorted_acc st @ [] \<and> visited ?s = visited st \<union> set [] \<and>
        logger (env ?s) = logger (env st) @ map cycle_log_entry [n] \<and>
        stats (env ?s) = (stats (env st))\<lparr>warnings := warnings (stats (env st)) + length [n]\<rparr> \<and>
        console (env ?s) = console (env st) \<and> trace (env ?s) = trace (env st)"
    by (simp add: cycle_warning_def)
  moreover have "visiting ?s = visiting st" by simp
  ultimately show ?thesis unfolding dfs_extends_def by blast
qed

lemma dfs_extends_finish:
  assumes "dfs_extends (st\<lparr>visiting := insert n (visiting st)\<rparr>) s2" and "n \<notin> visiting st"
  shows "dfs_extends st (s2\<lparr>visiting := visiting s2 - {n}, visited := insert n (visited s2),
               sorted_acc := sorted_acc s2 @ [n]\<rparr>)"
proof -
  let ?s = "s2\<lparr>visiting := visiting s2 - {n}, visited := insert n (visited s2),
               sorted_acc := sorted_acc s2 @ [n]\<rparr>"
  from assms(1) obtain new names where a:
    "visiting s2 = insert n (visiting st)" "sorted_acc s2 = sorted_acc st @ new"
    "visited s2 = visited st \<union> set new"
    "logger (env s2) = logger (env st) @ map cycle_log_entry names"
    "stats (env s2) = (stats (env st))\<lparr>warnings := warnings (stats (env st)) + length names\<rparr>"
    "console (env s2) = console (env st)" "trace (env s2) = trace (env st)"
    unfolding dfs_extends_def by auto
  have "sorted_acc ?s = sorted_acc st @ (new @ [n]) \<and>
        visited ?s = visited st \<union> set (new @ [n]) \<and>
        logger (env ?s) = logger (env st) @ map cycle_log_entry names \<and>
        stats (env ?s) = (stats (env st))\<lparr>warnings := warnings (stats (env st)) + length names\<rparr> \<and>
        console (env ?s) = console (env st) \<and> trace (env ?s) = trace (env st)"
    using a by simp
  moreover have "visiting ?s = visiting st" using a assms(2) by simp
  ultimately show ?thesis unfolding dfs_extends_def by blast
qed

lemma visit_extends:
  "visit depth D n s = Inr s' \<Longrightarrow> dfs_extends s s'"
  "visit_each depth D ds s = Inr s' \<Longrightarrow> dfs_extends s s'"
proof (induction depth D n s and depth D ds s arbitrary: s' and s' rule: visit_visit_each.induct)
  case (1 D n st)
  then show ?case by simp
next
  case (2 depth D n st)
  from "2.prems" show ?case
  proof (cases rule: visit_SucE)
    case seen
    then show ?thesis by (simp add: dfs_extends_refl)
  next
    case cycle
    then show ?thesis by (simp add: dfs_extends_cycle)
  next
    case (fresh s2)
    from "2.IH"[OF fresh(1) fresh(2) refl fresh(3)]
    show ?thesis unfolding fresh(4) using fresh(2) by (rule dfs_extends_finish)
  qed
next
  case (3 depth D st)
  then show ?case by (simp add: dfs_extends_refl)
next
  case (4 depth D dep deps st)
  from "4.prems" obtain s1 where s1: "visit depth D dep st = Inr s1"
    and r: "visit_each depth D deps s1 = Inr s'"
    by (rule visit_each_ConsE)
  from "4.IH"(1)[OF s1] "4.IH"(2)[OF s1 r] show ?case by (rule dfs_extends_trans)
qed

lemma dfs_extends_visited: "dfs_extends s s' \<Longrightarrow> visited s \<subseteq> visited s'"
  unfolding dfs_extends_def by auto

lemma dfs_extends_visiting: "dfs_extends s s' \<Longrightarrow> visiting s' = visiting s"
  unfolding dfs_extends_def by auto

lemma visit_reaches:
  assumes "visit depth D n s = Inr s'"
  shows "n \<in> visited s' \<or> n \<in> visiting s"
proof (cases depth)
  case 0
  with assms show ?thesis by simp
next
  case (Suc d)
  with assms have "visit (Suc d) D n s = Inr s'" by simp
  then show ?thesis
    by (cases rule: visit_SucE) simp_all
qed

lemma visit_each_reaches:
  "visit_each depth D ds s = Inr s' \<Longrightarrow> d \<in> set ds \<Longrightarrow> d \<in> visited s' \<or> d \<in> visiting s"
proof (induction ds arbitrary: s)
  case Nil
  then show ?case by simp
next
  case (Cons a ds)
  from Cons.prems(1) obtain s1 where s1: "visit depth D a s = Inr s1"
    and r: "visit_each depth D ds s1 = Inr s'"
    by (rule visit_each_ConsE)
  have e1: "dfs_extends s s1" using s1 by (rule visit_extends)
  have e2: "dfs_extends s1 s'" using r by (rule visit_extends)
  show ?case
  proof (cases "d = a")
    case True
    with visit_reaches[OF s1] dfs_extends_visited[OF e2] show ?thesis by auto
  next
    case False
    with Cons.prems(2) have "d \<in> set ds" by simp
    from Cons.IH[OF r this] dfs_extends_visiting[OF e1] show ?thesis by simp
  qed
qed

subsection \<open>Termination\<close>

lemma visit_terminates:
  "finite (dom D) \<Longrightarrow> card (dom D - visiting s) < depth \<Longrightarrow> \<exists>s'. visit depth D n s = Inr s'"
  "finite (dom D) \<Longrightarrow> card (dom D - visiting s) < depth \<Longrightarrow>
     \<exists>s'. visit_each depth D ds s = Inr s'"
proof (induction depth D n s and depth D ds s rule: visit_visit_each.induct)
  case (1 D n st)
  then show ?case by simp
next
  case (2 depth D n st)
  let ?s1 = "st\<lparr>visiting := insert n (visiting st)\<rparr>"
  show ?case
  proof (cases "n \<in> visited st \<or> n \<in> visiting st")
    case True
    then show ?thesis by auto
  next
    case False
    have "\<exists>s2. visit_each depth D (case D n of None \<Rightarrow> [] | Some d \<Rightarrow> d) ?s1 = Inr s2"
    proof (cases "D n")
      case None
      then show ?thesis by simp
    next
      case (Some ds)
      then have mem: "n \<in> dom D - visiting st" using False by auto
      have eq: "dom D - visiting ?s1 = (dom D - visiting st) - {n}" by auto
      have fin: "finite (dom D - visiting st)" using "2.prems"(1) by simp
      have "card ((dom D - visiting st) - {n}) < card (dom D - visiting st)"
        using fin mem by (rule card_Diff1_less)
      with eq have "card (dom D - visiting ?s1) < card (dom D - visiting st)"
        by simp
      with "2.prems"(2) have "card (dom D - visiting ?s1) < depth" by simp
      with "2.IH"[OF _ _ refl "2.prems"(1)] False show ?thesis by blast
    qed
    then obtain s2 where
      "visit_each depth D (case D n of None \<Rightarrow> [] | Some d \<Rightarrow> d) ?s1 = Inr s2" ..
    with False show ?thesis by simp
  qed
next
  case (3 depth D st)
  then show ?case by simp
next
  case (4 depth D dep deps st)
  from "4.IH"(1)[OF "4.prems"] obtain s1 where s1: "visit depth D dep st = Inr s1" ..
  then have "visiting s1 = visiting st" by (rule visit_visiting)
  with "4.prems"(2) have "card (dom D - visiting s1) < depth" by simp
  from "4.IH"(2)[OF s1 "4.prems"(1) this] s1 show ?case by simp
qed


subsection \<open>The order of the output\<close>

lemma precedes_append: "precedes y x xs \<Longrightarrow> precedes y x (xs @ zs)"
proof -
  assume p: "precedes y x xs"
  then have ne: "dropWhile (\<lambda>z. z \<noteq> y) xs \<noteq> []"
    unfolding precedes_def by (cases "dropWhile (\<lambda>z. z \<noteq> y) xs") auto
  then have "\<exists>z\<in>set xs. \<not> z \<noteq> y" by (simp add: dropWhile_eq_Nil_conv)
  then have "dropWhile (\<lambda>z. z \<noteq> y) (xs @ zs) = dropWhile (\<lambda>z. z \<noteq> y) xs @ zs"
    by (auto intro: dropWhile_append1)
  with ne p show ?thesis unfolding precedes_def by simp
qed

lemma precedes_snoc: "y \<in> set xs \<Longrightarrow> precedes y x (xs @ [x])"
proof -
  assume y: "y \<in> set xs"
  then have ne: "dropWhile (\<lambda>z. z \<noteq> y) xs \<noteq> []"
    by (auto simp: dropWhile_eq_Nil_conv)
  from y have "dropWhile (\<lambda>z. z \<noteq> y) (xs @ [x]) = dropWhile (\<lambda>z. z \<noteq> y) xs @ [x]"
    by (auto intro: dropWhile_append1)
  with ne show ?thesis unfolding precedes_def by simp
qed

lemma visit_inv:
  "visit depth D n s = Inr s' \<Longrightarrow> dfs_inv D s \<Longrightarrow>
     (\<forall>v\<in>visiting s. (v, n) \<in> (graph_of D)\<^sup>+) \<Longrightarrow> dfs_inv D s'"
  "visit_each depth D ds s = Inr s' \<Longrightarrow> dfs_inv D s \<Longrightarrow>
     (\<forall>v\<in>visiting s. \<forall>d\<in>set ds. (v, d) \<in> (graph_of D)\<^sup>+) \<Longrightarrow> dfs_inv D s'"
proof (induction depth D n s and depth D ds s arbitrary: s' and s' rule: visit_visit_each.induct)
  case (1 D n st)
  then show ?case by simp
next
  case (2 depth D n st)
  let ?G = "graph_of D"
  let ?deps = "case D n of None \<Rightarrow> [] | Some d \<Rightarrow> d"
  let ?s1 = "st\<lparr>visiting := insert n (visiting st)\<rparr>"
  from "2.prems"(1) show ?case
  proof (cases rule: visit_SucE)
    case seen
    with "2.prems"(2) show ?thesis by simp
  next
    case cycle
    with "2.prems"(2) show ?thesis by (simp add: dfs_inv_def)
  next
    case (fresh s2)
    have edges: "(n, y) \<in> ?G \<longleftrightarrow> y \<in> set ?deps" for y
      by (cases "D n") (auto simp: graph_of_def)
    have inv1: "dfs_inv D ?s1"
      using "2.prems"(2) fresh(1) by (simp add: dfs_inv_def)
    have stack1: "\<forall>v\<in>visiting ?s1. \<forall>d\<in>set ?deps. (v, d) \<in> ?G\<^sup>+"
    proof (intro ballI)
      fix v d assume v: "v \<in> visiting ?s1" and d: "d \<in> set ?deps"
      from d have e: "(n, d) \<in> ?G" by (simp add: edges)
      show "(v, d) \<in> ?G\<^sup>+"
      proof (cases "v = n")
        case True
        with e show ?thesis by auto
      next
        case False
        with v have "v \<in> visiting st" by simp
        with "2.prems"(3) have "(v, n) \<in> ?G\<^sup>+" by blast
        then show ?thesis using e by (rule trancl_into_trancl)
      qed
    qed
    have inv2: "dfs_inv D s2"
      using "2.IH"[OF fresh(1) fresh(2) refl fresh(3) inv1 stack1] .
    have ving2: "visiting s2 = insert n (visiting st)"
      using visit_visiting(2)[OF fresh(3)] by simp
    from inv2 have d2: "distinct (sorted_acc s2)" and set2: "set (sorted_acc s2) = visited s2"
      and disj2: "visited s2 \<inter> visiting s2 = {}"
      and ord2: "\<And>x y. x \<in> visited s2 \<Longrightarrow> (x, y) \<in> ?G \<Longrightarrow>
          precedes y x (sorted_acc s2) \<or> (y, x) \<in> ?G\<^sup>+"
      unfolding dfs_inv_def by blast+
    have n2: "n \<notin> visited s2" using disj2 ving2 by auto
    have ord': "precedes y x (sorted_acc s2 @ [n]) \<or> (y, x) \<in> ?G\<^sup>+"
      if x: "x \<in> insert n (visited s2)" and e: "(x, y) \<in> ?G" for x y
    proof (cases "x = n")
      case False
      with x have "x \<in> visited s2" by simp
      from ord2[OF this e] show ?thesis by (auto intro: precedes_append)
    next
      case True
      with e have "y \<in> set ?deps" by (simp add: edges)
      from visit_each_reaches[OF fresh(3) this]
      have "y \<in> visited s2 \<or> y = n \<or> y \<in> visiting st" by auto
      then show ?thesis
      proof (elim disjE)
        assume "y \<in> visited s2"
        then have "y \<in> set (sorted_acc s2)" using set2 by simp
        then show ?thesis using True by (auto intro: precedes_snoc)
      next
        assume "y = n"
        with e True show ?thesis by auto
      next
        assume "y \<in> visiting st"
        with "2.prems"(3) have "(y, n) \<in> ?G\<^sup>+" by blast
        with True show ?thesis by simp
      qed
    qed
    show ?thesis
      unfolding fresh(4) dfs_inv_def using d2 set2 disj2 n2 ord' by auto
  qed
next
  case (3 depth D st)
  then show ?case by simp
next
  case (4 depth D dep deps st)
  from "4.prems"(1) obtain s1 where s1: "visit depth D dep st = Inr s1"
    and r: "visit_each depth D deps s1 = Inr s'"
    by (rule visit_each_ConsE)
  have i1: "dfs_inv D s1"
    using "4.IH"(1)[OF s1 "4.prems"(2)] "4.prems"(3) by simp
  have "visiting s1 = visiting st" using s1 by (rule visit_visiting)
  with "4.prems"(3) have "\<forall>v\<in>visiting s1. \<forall>d\<in>set deps. (v, d) \<in> (graph_of D)\<^sup>+" by simp
  from "4.IH"(2)[OF s1 r i1 this] show ?case .
qed

subsection \<open>The dependency graph that is built\<close>

lemma visit_tables_eq:
  "visit_tables depth D ts s = visit_each depth D (map fullName ts) s"
  by (induction ts arbitrary: s) (auto split: sum.splits)

lemma initial_dependencies_fold:
  "fold (\<lambda>t m. m(fullName t \<mapsto> [])) ts m k =
     (if k \<in> fullName ` set ts then Some [] else m k)"
  by (induction ts arbitrary: m) auto

lemma initial_dependencies_apply:
  "initial_dependencies ts k = (if k \<in> fullName ` set ts then Some [] else None)"
  by (simp add: initial_dependencies_def initial_dependencies_fold)

lemma dom_initial_dependencies: "dom (initial_dependencies ts) = fullName ` set ts"
  by (auto simp: initial_dependencies_apply dom_def)

lemma graph_of_initial_dependencies: "graph_of (initial_dependencies ts) = {}"
  by (auto simp: graph_of_def initial_dependencies_apply split: if_splits)

lemma graph_of_update:
  assumes "D a = Some ds"
  shows "graph_of (D(a \<mapsto> set_add ds b)) = insert (a, b) (graph_of D)"
  using assms by (auto simp: graph_of_def set_add_def split: if_splits)

lemma add_dependency_result:
  assumes "dom D = T"
  shows "\<exists>D'. add_dependency T fk D = Inr D' \<and> dom D' = T \<and>
           graph_of D' = graph_of D \<union> fk_edge T fk"
proof (cases "fk_source fk \<in> T \<and> fk_target fk \<in> T \<and> fk_source fk \<noteq> fk_target fk")
  case False
  then show ?thesis
    using assms by (auto simp: add_dependency_def fk_edge_def fk_source_def fk_target_def Let_def)
next
  case True
  then have "fk_source fk \<in> dom D" using assms by simp
  then obtain ds where ds: "D (fk_source fk) = Some ds" by blast
  have "add_dependency T fk D = Inr (D(fk_source fk \<mapsto> set_add ds (fk_target fk)))"
    using True ds by (simp add: add_dependency_def fk_source_def fk_target_def Let_def)
  moreover have "dom (D(fk_source fk \<mapsto> set_add ds (fk_target fk))) = T"
    using assms True by auto
  moreover have "graph_of (D(fk_source fk \<mapsto> set_add ds (fk_target fk))) =
      graph_of D \<union> fk_edge T fk"
    using True ds by (simp add: graph_of_update fk_edge_def)
  ultimately show ?thesis by simp
qed

lemma build_dependencies_result:
  assumes "dom D = T"
  shows "\<exists>D'. build_dependencies T fks D = Inr D' \<and> dom D' = T \<and>
           graph_of D' = graph_of D \<union> (\<Union>fk\<in>set fks. fk_edge T fk)"
  using assms
proof (induction fks arbitrary: D)
  case Nil
  then show ?case by simp
next
  case (Cons fk fks)
  from add_dependency_result[OF Cons.prems, of fk] obtain D1 where
    a: "add_dependency T fk D = Inr D1" and d: "dom D1 = T"
    and g: "graph_of D1 = graph_of D \<union> fk_edge T fk" by blast
  from Cons.IH[OF d] obtain D' where
    b: "build_dependencies T fks D1 = Inr D'" and d': "dom D' = T"
    and g': "graph_of D' = graph_of D1 \<union> (\<Union>fk\<in>set fks. fk_edge T fk)" by blast
  have "build_dependencies T (fk # fks) D = Inr D'" using a b by simp
  moreover have "graph_of D' = graph_of D \<union> (\<Union>fk\<in>set (fk # fks). fk_edge T fk)"
    using g g' by auto
  ultimately show ?case using d' by blast
qed

lemma dependency_edges_alt:
  "dependency_edges tables fks = (\<Union>fk\<in>set fks. fk_edge (fullName ` set tables) fk)"
  by (auto simp: dependency_edges_def fk_edge_def split: if_splits)

lemma dependencies_built:
  obtains D where
    "build_dependencies (set (map fullName tables)) fks (initial_dependencies tables) = Inr D"
    "dom D = fullName ` set tables"
    "graph_of D = dependency_edges tables fks"
proof -
  have "dom (initial_dependencies tables) = set (map fullName tables)"
    by (simp add: dom_initial_dependencies)
  from build_dependencies_result[OF this, of fks] obtain D where
    "build_dependencies (set (map fullName tables)) fks (initial_dependencies tables) = Inr D"
    "dom D = set (map fullName tables)"
    "graph_of D = graph_of (initial_dependencies tables) \<union>
       (\<Union>fk\<in>set fks. fk_edge (set (map fullName tables)) fk)"
    by blast
  then show ?thesis
    using that by (simp add: graph_of_initial_dependencies dependency_edges_alt)
qed

lemma visit_visited_bound:
  "visit depth D n s = Inr s' \<Longrightarrow> visited s' \<subseteq> visited s \<union> insert n (Range (graph_of D))"
  "visit_each depth D ds s = Inr s' \<Longrightarrow> visited s' \<subseteq> visited s \<union> set ds \<union> Range (graph_of D)"
proof (induction depth D n s and depth D ds s arbitrary: s' and s' rule: visit_visit_each.induct)
  case (1 D n st)
  then show ?case by simp
next
  case (2 depth D n st)
  from "2.prems" show ?case
  proof (cases rule: visit_SucE)
    case seen
    then show ?thesis by auto
  next
    case cycle
    then show ?thesis by auto
  next
    case (fresh s2)
    have "set (case D n of None \<Rightarrow> [] | Some d \<Rightarrow> d) \<subseteq> Range (graph_of D)"
      by (cases "D n") (auto simp: graph_of_def)
    with "2.IH"[OF fresh(1) fresh(2) refl fresh(3)] fresh(4) show ?thesis by auto
  qed
next
  case (3 depth D st)
  then show ?case by simp
next
  case (4 depth D dep deps st)
  from "4.prems" obtain s1 where s1: "visit depth D dep st = Inr s1"
    and r: "visit_each depth D deps s1 = Inr s'"
    by (rule visit_each_ConsE)
  from "4.IH"(1)[OF s1] "4.IH"(2)[OF s1 r] show ?case by auto
qed

subsection \<open>A run of the resolver\<close>

lemma sort_bounded_unfold:
  assumes "build_dependencies (set (map fullName tables)) fks (initial_dependencies tables) = Inr D"
    and "visit_tables depth D tables (dfs_start w) = Inr st"
  shows "sortTablesByDependencies_bounded depth tables fks w =
           Inr (map table_of_name (sorted_acc st), env st)"
  using assms by (simp add: sortTablesByDependencies_bounded_def dfs_start_def)

lemma dfs_inv_start: "dfs_inv D (dfs_start w)"
  by (simp add: dfs_inv_def dfs_start_def)

lemma resolver_run:
  assumes "length tables < depth"
  obtains D st where
    "build_dependencies (set (map fullName tables)) fks (initial_dependencies tables) = Inr D"
    "visit_tables depth D tables (dfs_start w) = Inr st"
    "graph_of D = dependency_edges tables fks"
    "dfs_inv D st"
    "dfs_extends (dfs_start w) st"
    "visited st = fullName ` set tables"
proof -
  from dependencies_built[of tables fks] obtain D where
    b: "build_dependencies (set (map fullName tables)) fks (initial_dependencies tables) = Inr D"
    and d: "dom D = fullName ` set tables"
    and g: "graph_of D = dependency_edges tables fks"
    by blast
  have fin: "finite (dom D)" using d by simp
  have "card (fullName ` set tables) \<le> card (set tables)" by (rule card_image_le) simp
  also have "\<dots> \<le> length tables" by (rule card_length)
  finally have "card (dom D - visiting (dfs_start w)) < depth"
    using assms d by (simp add: dfs_start_def)
  from visit_terminates(2)[OF fin this, of "map fullName tables"] obtain st where
    v: "visit_each depth D (map fullName tables) (dfs_start w) = Inr st" by blast
  have vt: "visit_tables depth D tables (dfs_start w) = Inr st"
    using v by (simp add: visit_tables_eq)
  have inv: "dfs_inv D st"
    using visit_inv(2)[OF v dfs_inv_start] by (simp add: dfs_start_def)
  have ext: "dfs_extends (dfs_start w) st" using v by (rule visit_extends)
  have sub1: "fullName ` set tables \<subseteq> visited st"
  proof
    fix k assume "k \<in> fullName ` set tables"
    then have "k \<in> set (map fullName tables)" by simp
    from visit_each_reaches[OF v this] show "k \<in> visited st"
      by (simp add: dfs_start_def)
  qed
  have R: "Range (dependency_edges tables fks) \<subseteq> fullName ` set tables"
    by (auto simp: dependency_edges_def)
  have "visited st \<subseteq> visited (dfs_start w) \<union> set (map fullName tables) \<union> Range (graph_of D)"
    using v by (rule visit_visited_bound)
  then have "visited st \<subseteq> fullName ` set tables \<union> Range (dependency_edges tables fks)"
    by (simp add: dfs_start_def g)
  with R have sub2: "visited st \<subseteq> fullName ` set tables" by blast
  from sub1 sub2 have vis: "visited st = fullName ` set tables" by (rule subset_antisym[rotated])
  show ?thesis by (rule that[OF b vt g inv ext vis])
qed


subsection \<open>Names split back into rows\<close>

lemma split_dot_fst: "fst (split_dot n) = takeWhile (\<lambda>c. c \<noteq> CHR ''.'') n"
  by (induction n) (auto split: prod.splits)

lemma split_dot_snd:
  "snd (split_dot (s @ CHR ''.'' # t)) =
     (if CHR ''.'' \<in> set s then snd (split_dot (s @ CHR ''.'' # t))
      else fst (split_dot t) # snd (split_dot t))"
  by (induction s) (auto split: prod.splits)

lemma table_of_name_fullName:
  assumes "CHR ''.'' \<notin> set (schema_name t)"
  shows "table_of_name (fullName t) =
           \<lparr>schema_name = schema_name t,
            table_name = Some (takeWhile (\<lambda>c. c \<noteq> CHR ''.'') (table_name t))\<rparr>"
proof -
  let ?n = "schema_name t @ CHR ''.'' # table_name t"
  have "takeWhile (\<lambda>c. c \<noteq> CHR ''.'') ?n = schema_name t"
    using assms by (subst takeWhile_append2) auto
  then have f: "fst (split_dot ?n) = schema_name t"
    by (simp add: split_dot_fst)
  have "snd (split_dot ?n) = fst (split_dot (table_name t)) # snd (split_dot (table_name t))"
    using assms split_dot_snd[of "schema_name t" "table_name t"] by simp
  then have s: "snd (split_dot ?n) =
      takeWhile (\<lambda>c. c \<noteq> CHR ''.'') (table_name t) # snd (split_dot (table_name t))"
    by (simp add: split_dot_fst)
  obtain a b where ab: "split_dot ?n = (a, b)" by (cases "split_dot ?n")
  with f s have "a = schema_name t"
    and "b = takeWhile (\<lambda>c. c \<noteq> CHR ''.'') (table_name t) # snd (split_dot (table_name t))"
    by simp_all
  with ab show ?thesis
    by (simp add: table_of_name_def fullName_def)
qed

lemma table_of_name_dot_free:
  assumes "dot_free t"
  shows "table_of_name (fullName t) = as_object t"
proof -
  have "takeWhile (\<lambda>c. c \<noteq> CHR ''.'') (table_name t) = table_name t"
    using assms by (auto simp: dot_free_def takeWhile_eq_all_conv)
  with table_of_name_fullName[of t] assms show ?thesis
    by (simp add: dot_free_def as_object_def)
qed

lemma as_object_inj: "as_object a = as_object b \<Longrightarrow> a = b"
  by (cases a, cases b) (simp add: as_object_def)

subsection \<open>The result of the resolver\<close>



lemma fullName_inj:
  assumes "dot_free a" and "dot_free b" and "fullName a = fullName b"
  shows "a = b"
proof -
  have "as_object a = as_object b"
    using assms table_of_name_dot_free[of a] table_of_name_dot_free[of b] by simp
  then show ?thesis by (rule as_object_inj)
qed

lemma list_in_image:
  "set xs \<subseteq> f ` A \<Longrightarrow> \<exists>ys. xs = map f ys \<and> set ys \<subseteq> A"
proof (induction xs)
  case Nil
  then show ?case by simp
next
  case (Cons x xs)
  then obtain ys where ys: "xs = map f ys" "set ys \<subseteq> A" by auto
  from Cons.prems obtain a where a: "a \<in> A" "x = f a" by auto
  have "x # xs = map f (a # ys) \<and> set (a # ys) \<subseteq> A" using ys a by simp
  then show ?case by (rule exI)
qed

lemma names_as_tables:
  assumes "set names = fullName ` set tables" and "distinct names"
    and "\<forall>t\<in>set tables. dot_free t"
  obtains ts where "names = map fullName ts" "distinct ts" "set ts = set tables"
    "map table_of_name names = map as_object ts"
proof -
  from assms(1) have "set names \<subseteq> fullName ` set tables" by simp
  then obtain ts where n: "names = map fullName ts" and sub: "set ts \<subseteq> set tables"
    using list_in_image by blast
  have d: "distinct ts" using assms(2) n by (simp add: distinct_map)
  have "set tables \<subseteq> set ts"
  proof
    fix t assume t: "t \<in> set tables"
    then have "fullName t \<in> set names" using assms(1) by simp
    then obtain t' where t': "t' \<in> set ts" "fullName t = fullName t'" using n by auto
    with sub t assms(3) have "t = t'" by (auto intro: fullName_inj)
    with t' show "t \<in> set ts" by simp
  qed
  with sub have s: "set ts = set tables" by blast
  have "map table_of_name names = map as_object ts"
    using n sub assms(3) by (auto simp: table_of_name_dot_free)
  with n d s show ?thesis using that by blast
qed

lemma world_after_resolver:
  assumes "dfs_extends (dfs_start w) st"
  shows "\<exists>cyc. env st = w\<lparr>logger := logger w @ map cycle_log_entry cyc,
               stats := (stats w)\<lparr>warnings := warnings (stats w) + length cyc\<rparr>\<rparr>"
proof -
  from assms obtain cyc where
    "logger (env st) = logger w @ map cycle_log_entry cyc"
    "stats (env st) = (stats w)\<lparr>warnings := warnings (stats w) + length cyc\<rparr>"
    "console (env st) = console w" "trace (env st) = trace w"
    unfolding dfs_extends_def dfs_start_def by auto
  then have "env st = w\<lparr>logger := logger w @ map cycle_log_entry cyc,
               stats := (stats w)\<lparr>warnings := warnings (stats w) + length cyc\<rparr>\<rparr>"
    by (simp add: world.equality)
  then show ?thesis by (rule exI)
qed

lemma resolver_summary:
  obtains names cyc where
    "sortTablesByDependencies tables fks w =
       Inr (map table_of_name names,
            w\<lparr>logger := logger w @ map cycle_log_entry cyc,
              stats := (stats w)\<lparr>warnings := warnings (stats w) + length cyc\<rparr>\<rparr>)"
    "distinct names"
    "set names = fullName ` set tables"
    "\<forall>a b. (a, b) \<in> dependency_edges tables fks \<longrightarrow>
        (b, a) \<notin> (dependency_edges tables fks)\<^sup>+ \<longrightarrow> precedes b a names"
proof -
  have "length tables < Suc (length tables)" by simp
  then obtain D st where
    b: "build_dependencies (set (map fullName tables)) fks (initial_dependencies tables) = Inr D"
    and v: "visit_tables (Suc (length tables)) D tables (dfs_start w) = Inr st"
    and g: "graph_of D = dependency_edges tables fks"
    and inv: "dfs_inv D st"
    and ext: "dfs_extends (dfs_start w) st"
    and vis: "visited st = fullName ` set tables"
    by (rule resolver_run[where fks = fks and w = w])
  from world_after_resolver[OF ext] obtain cyc where
    e: "env st = w\<lparr>logger := logger w @ map cycle_log_entry cyc,
               stats := (stats w)\<lparr>warnings := warnings (stats w) + length cyc\<rparr>\<rparr>"
    by blast
  have r: "sortTablesByDependencies tables fks w =
       Inr (map table_of_name (sorted_acc st),
            w\<lparr>logger := logger w @ map cycle_log_entry cyc,
              stats := (stats w)\<lparr>warnings := warnings (stats w) + length cyc\<rparr>\<rparr>)"
    using sort_bounded_unfold[OF b v] e by (simp add: sortTablesByDependencies_def)
  from inv have d: "distinct (sorted_acc st)" and s: "set (sorted_acc st) = visited st"
    and o: "\<And>x y. x \<in> visited st \<Longrightarrow> (x, y) \<in> graph_of D \<Longrightarrow>
          precedes y x (sorted_acc st) \<or> (y, x) \<in> (graph_of D)\<^sup>+"
    unfolding dfs_inv_def by blast+
  have ord1: "precedes b a (sorted_acc st)"
    if "(a, b) \<in> dependency_edges tables fks" "(b, a) \<notin> (dependency_edges tables fks)\<^sup>+"
    for a b
  proof -
    from that(1) have "a \<in> visited st" by (auto simp: vis dependency_edges_def)
    from o[OF this, of b] that g show ?thesis by simp
  qed
  then have ord: "\<forall>a b. (a, b) \<in> dependency_edges tables fks \<longrightarrow>
        (b, a) \<notin> (dependency_edges tables fks)\<^sup>+ \<longrightarrow> precedes b a (sorted_acc st)"
    by blast
  from s vis have s': "set (sorted_acc st) = fullName ` set tables" by simp
  show ?thesis by (rule that[OF r d s' ord])
qed

subsection \<open>Runs on the small catalogue\<close>

lemmas resolver_eval =
  sortTablesByDependencies_def sortTablesByDependencies_bounded_def initial_dependencies_def
  add_dependency_def set_add_def fullName_def table_of_name_def cycle_warning_def
  cycle_log_entry_def catalogue_table_def reference_def initial_world_def initial_stats_def
  as_object_def dquote_def Let_def

lemma two_cycle_run:
  "sortTablesByDependencies
     [catalogue_table ''dbo'' ''A'', catalogue_table ''dbo'' ''B'']
     [reference ''fk1'' ''dbo'' ''A'' ''dbo'' ''B'', reference ''fk2'' ''dbo'' ''B'' ''dbo'' ''A'']
     initial_world =
   Inr ([as_object (catalogue_table ''dbo'' ''B''), as_object (catalogue_table ''dbo'' ''A'')],
        initial_world\<lparr>logger := [cycle_log_entry ''dbo.A''],
                      stats := initial_stats\<lparr>warnings := 1\<rparr>\<rparr>)"
  by (simp add: resolver_eval)

lemma chain_run:
  "sortTablesByDependencies
     [catalogue_table ''dbo'' ''A'', catalogue_table ''dbo'' ''B'', catalogue_table ''dbo'' ''C'']
     [reference ''fk1'' ''dbo'' ''A'' ''dbo'' ''B'', reference ''fk2'' ''dbo'' ''B'' ''dbo'' ''C'']
     initial_world =
   Inr ([as_object (catalogue_table ''dbo'' ''C''), as_object (catalogue_table ''dbo'' ''B''),
         as_object (catalogue_table ''dbo'' ''A'')],
        initial_world)"
  by (simp add: resolver_eval)

lemma dotted_run:
  "sortTablesByDependencies
     [catalogue_table ''dbo'' ''a.x'', catalogue_table ''dbo'' ''b'']
     [reference ''fk1'' ''dbo'' ''a.x'' ''dbo'' ''b'']
     initial_world =
   Inr ([\<lparr>schema_name = ''dbo'', table_name = Some ''b''\<rparr>,
         \<lparr>schema_name = ''dbo'', table_name = Some ''a''\<rparr>],
        initial_world)"
  by (simp add: resolver_eval)




lemma schema_dot_run:
  "sortTablesByDependencies [catalogue_table ''my.schema'' ''t.x''] [] initial_world =
   Inr ([\<lparr>schema_name = ''my'', table_name = Some ''schema''\<rparr>], initial_world)"
  by (simp add: resolver_eval)


subsection \<open>Termination, order and round trip\<close>

lemma dot_free_output:
  assumes "set names = fullName ` set tables" and "distinct names"
    and "\<forall>t\<in>set tables. dot_free t"
  shows "\<exists>ts. map table_of_name names = map as_object ts \<and> distinct ts \<and> set ts = set tables"
proof -
  from assms obtain ts where "names = map fullName ts" "distinct ts" "set ts = set tables"
    "map table_of_name names = map as_object ts"
    by (rule names_as_tables)
  then have "map table_of_name names = map as_object ts \<and> distinct ts \<and> set ts = set tables"
    by simp
  then show ?thesis by (rule exI)
qed








text \<open>
  C10, as the code has it. The output rows are rebuilt by splitting the names
  \<open>schema.table\<close> at the dots and keeping the first two segments. When no schema or table
  name of the input contains a dot, the output is the input tables themselves, each
  once, in the resolver's order. For a table whose schema name has no dot, the row
  rebuilt from its name has the table name cut at its first dot, and that row is in the
  output.
\<close>

theorem sortTablesByDependencies_round_trip:
  assumes "sortTablesByDependencies tables fks w = Inr (out, w')"
  shows "((\<forall>t\<in>set tables. dot_free t) \<longrightarrow>
            (\<exists>ts. out = map as_object ts \<and> distinct ts \<and> set ts = set tables))
       \<and> (\<forall>t\<in>set tables. CHR ''.'' \<notin> set (schema_name t) \<longrightarrow>
            table_of_name (fullName t) =
              \<lparr>schema_name = schema_name t,
               table_name = Some (takeWhile (\<lambda>c. c \<noteq> CHR ''.'') (table_name t))\<rparr>
            \<and> \<lparr>schema_name = schema_name t,
                table_name = Some (takeWhile (\<lambda>c. c \<noteq> CHR ''.'') (table_name t))\<rparr> \<in> set out)
       \<and> (\<exists>names. out = map table_of_name names \<and> distinct names \<and>
             set names = fullName ` set tables)"
proof -
  obtain names cyc where
    r: "sortTablesByDependencies tables fks w =
        Inr (map table_of_name names,
             w\<lparr>logger := logger w @ map cycle_log_entry cyc,
               stats := (stats w)\<lparr>warnings := warnings (stats w) + length cyc\<rparr>\<rparr>)"
    and d: "distinct names" and s: "set names = fullName ` set tables"
    by (rule resolver_summary[of tables fks w])
  from r assms have out: "out = map table_of_name names" by simp
  have one: "(\<forall>t\<in>set tables. dot_free t) \<longrightarrow>
            (\<exists>ts. out = map as_object ts \<and> distinct ts \<and> set ts = set tables)"
    using dot_free_output[OF s d] out by simp
  have two: "table_of_name (fullName t) =
              \<lparr>schema_name = schema_name t,
               table_name = Some (takeWhile (\<lambda>c. c \<noteq> CHR ''.'') (table_name t))\<rparr>
            \<and> \<lparr>schema_name = schema_name t,
                table_name = Some (takeWhile (\<lambda>c. c \<noteq> CHR ''.'') (table_name t))\<rparr> \<in> set out"
    if "t \<in> set tables" "CHR ''.'' \<notin> set (schema_name t)" for t
  proof -
    have e: "table_of_name (fullName t) =
              \<lparr>schema_name = schema_name t,
               table_name = Some (takeWhile (\<lambda>c. c \<noteq> CHR ''.'') (table_name t))\<rparr>"
      using that(2) by (rule table_of_name_fullName)
    from that(1) s have "fullName t \<in> set names" by simp
    then have "table_of_name (fullName t) \<in> set out" unfolding out by simp
    with e show ?thesis by simp
  qed
  have three: "\<exists>names. out = map table_of_name names \<and> distinct names \<and>
             set names = fullName ` set tables"
    using out d s by blast
  from one two three show ?thesis by blast
qed

text \<open>
  Two runs: one on names without dots, one where table \<open>a.x\<close> comes out as \<open>a\<close>.
\<close>

theorem sortTablesByDependencies_round_trip_witness:
  "dot_free (catalogue_table ''dbo'' ''A'') \<and> dot_free (catalogue_table ''dbo'' ''B'')
   \<and> sortTablesByDependencies
       [catalogue_table ''dbo'' ''A'', catalogue_table ''dbo'' ''B'']
       [reference ''fk1'' ''dbo'' ''A'' ''dbo'' ''B'', reference ''fk2'' ''dbo'' ''B'' ''dbo'' ''A'']
       initial_world =
     Inr (map as_object [catalogue_table ''dbo'' ''B'', catalogue_table ''dbo'' ''A''],
          initial_world\<lparr>logger := [cycle_log_entry ''dbo.A''],
                        stats := initial_stats\<lparr>warnings := 1\<rparr>\<rparr>)
   \<and> CHR ''.'' \<notin> set (schema_name (catalogue_table ''dbo'' ''a.x''))
   \<and> sortTablesByDependencies
       [catalogue_table ''dbo'' ''a.x'', catalogue_table ''dbo'' ''b'']
       [reference ''fk1'' ''dbo'' ''a.x'' ''dbo'' ''b'']
       initial_world =
     Inr ([\<lparr>schema_name = ''dbo'', table_name = Some ''b''\<rparr>,
           \<lparr>schema_name = ''dbo'', table_name = Some ''a''\<rparr>], initial_world)
   \<and> table_of_name (fullName (catalogue_table ''dbo'' ''a.x'')) =
       \<lparr>schema_name = ''dbo'', table_name = Some ''a''\<rparr>"
proof -
  let ?A = "catalogue_table ''dbo'' ''A''"
  let ?B = "catalogue_table ''dbo'' ''B''"
  let ?ax = "catalogue_table ''dbo'' ''a.x''"
  let ?b = "catalogue_table ''dbo'' ''b''"
  let ?fks = "[reference ''fk1'' ''dbo'' ''A'' ''dbo'' ''B'',
               reference ''fk2'' ''dbo'' ''B'' ''dbo'' ''A'']"
  have df: "dot_free ?A" "dot_free ?B"
    by (simp_all add: dot_free_def catalogue_table_def)
  have r1: "sortTablesByDependencies [?A, ?B] ?fks initial_world =
     Inr (map as_object [?B, ?A],
          initial_world\<lparr>logger := [cycle_log_entry ''dbo.A''],
                        stats := initial_stats\<lparr>warnings := 1\<rparr>\<rparr>)"
    using two_cycle_run by simp
  have "\<exists>ts. map as_object [?B, ?A] = map as_object ts \<and> distinct ts \<and> set ts = set [?A, ?B]"
    using sortTablesByDependencies_round_trip[OF r1] df by simp
  have r2: "sortTablesByDependencies [?ax, ?b] [reference ''fk1'' ''dbo'' ''a.x'' ''dbo'' ''b'']
       initial_world =
     Inr ([\<lparr>schema_name = ''dbo'', table_name = Some ''b''\<rparr>,
           \<lparr>schema_name = ''dbo'', table_name = Some ''a''\<rparr>], initial_world)"
    by (rule dotted_run)
  have sch: "CHR ''.'' \<notin> set (schema_name ?ax)"
    by (simp add: catalogue_table_def)
  have "?ax \<in> set [?ax, ?b]" by simp
  with sortTablesByDependencies_round_trip[OF r2] sch
  have "table_of_name (fullName ?ax) =
      \<lparr>schema_name = schema_name ?ax,
       table_name = Some (takeWhile (\<lambda>c. c \<noteq> CHR ''.'') (table_name ?ax))\<rparr>"
    by blast
  then have "table_of_name (fullName ?ax) = \<lparr>schema_name = ''dbo'', table_name = Some ''a''\<rparr>"
    by (simp add: catalogue_table_def)
  with df r1 r2 sch show ?thesis by (intro conjI)
qed

text \<open>
  The claim C10 says a table name with a dot is cut at its first dot. When the schema
  name has a dot too, the two segments kept both come from the schema name, and the
  table name is lost.
\<close>

theorem dotted_schema_row:
  "sortTablesByDependencies [catalogue_table ''my.schema'' ''t.x''] [] initial_world =
     Inr ([\<lparr>schema_name = ''my'', table_name = Some ''schema''\<rparr>], initial_world)
   \<and> CHR ''.'' \<in> set (table_name (catalogue_table ''my.schema'' ''t.x''))
   \<and> table_of_name (fullName (catalogue_table ''my.schema'' ''t.x'')) =
       \<lparr>schema_name = ''my'', table_name = Some ''schema''\<rparr>
   \<and> \<lparr>schema_name = ''my.schema'', table_name = Some ''t''\<rparr> \<notin>
       set [\<lparr>schema_name = ''my'', table_name = Some ''schema''\<rparr>]"
  using schema_dot_run
  by (simp add: catalogue_table_def table_of_name_def fullName_def)

section \<open>Phases 2 and 3\<close>

lemma trace_log_call: "trace (log_call l c m w) = trace w"
  by (simp add: log_call_def)

lemma trace_createForeignKey:
  "trace (createForeignKey pg fk w) = trace w @ [PgQuery (alter_statement fk)]"
  by (simp add: createForeignKey_def Let_def trace_log_call split: option.splits)

lemma trace_fold_createForeignKey:
  "trace (fold (createForeignKey pg) fks w) =
     trace w @ map (\<lambda>fk. PgQuery (alter_statement fk)) fks"
  by (induction fks arbitrary: w) (simp_all add: trace_createForeignKey)

lemma trace_createForeignKeys:
  "trace (createForeignKeys pg fks w) = trace w @ map (\<lambda>fk. PgQuery (alter_statement fk)) fks"
  by (simp add: createForeignKeys_def trace_fold_createForeignKey trace_log_call)

lemma altered_tables_alter_statements:
  "altered_tables (map (\<lambda>fk. PgQuery (alter_statement fk)) fks) =
     map (\<lambda>fk. escapeIdentifier (fullTableName (tableSchema fk) (tableName fk))) fks"
  by (induction fks) (simp_all add: alter_statement_def Let_def)

lemma visit_fresh:
  assumes "n \<notin> visited st" and "n \<notin> visiting st"
    and "visit_each depth D (case D n of None \<Rightarrow> [] | Some d \<Rightarrow> d)
           (st\<lparr>visiting := insert n (visiting st)\<rparr>) = Inr s2"
  shows "visit (Suc depth) D n st =
           Inr (s2\<lparr>visiting := visiting s2 - {n}, visited := insert n (visited s2),
                   sorted_acc := sorted_acc s2 @ [n]\<rparr>)"
  using assms by simp

lemma visit_env:
  "visit depth D n s = Inr s' \<Longrightarrow> \<exists>e'. visit depth D n (s\<lparr>env := e\<rparr>) = Inr (s'\<lparr>env := e'\<rparr>)"
  "visit_each depth D ds s = Inr s' \<Longrightarrow>
     \<exists>e'. visit_each depth D ds (s\<lparr>env := e\<rparr>) = Inr (s'\<lparr>env := e'\<rparr>)"
proof (induction depth D n s and depth D ds s arbitrary: s' e and s' e
    rule: visit_visit_each.induct)
  case (1 D n st)
  then show ?case by simp
next
  case (2 depth D n st)
  from "2.prems" show ?case
  proof (cases rule: visit_SucE)
    case seen
    then have "visit (Suc depth) D n (st\<lparr>env := e\<rparr>) = Inr (s'\<lparr>env := e\<rparr>)" by simp
    then show ?thesis by (rule exI)
  next
    case cycle
    then have "visit (Suc depth) D n (st\<lparr>env := e\<rparr>) = Inr (s'\<lparr>env := cycle_warning n e\<rparr>)"
      by simp
    then show ?thesis by (rule exI)
  next
    case (fresh s2)
    let ?deps = "case D n of None \<Rightarrow> [] | Some d \<Rightarrow> d"
    let ?st = "st\<lparr>env := e\<rparr>"
    from "2.IH"[OF fresh(1) fresh(2) refl fresh(3), of e] obtain e2 where
      i: "visit_each depth D ?deps ((st\<lparr>visiting := insert n (visiting st)\<rparr>)\<lparr>env := e\<rparr>) =
         Inr (s2\<lparr>env := e2\<rparr>)"
      by blast
    have eq: "?st\<lparr>visiting := insert n (visiting ?st)\<rparr> =
        (st\<lparr>visiting := insert n (visiting st)\<rparr>)\<lparr>env := e\<rparr>"
      by simp
    have j: "visit_each depth D ?deps (?st\<lparr>visiting := insert n (visiting ?st)\<rparr>) =
         Inr (s2\<lparr>env := e2\<rparr>)"
      by (subst eq) (rule i)
    have "n \<notin> visited ?st" "n \<notin> visiting ?st" using fresh(1,2) by simp_all
    then have "visit (Suc depth) D n ?st =
        Inr ((s2\<lparr>env := e2\<rparr>)\<lparr>visiting := visiting (s2\<lparr>env := e2\<rparr>) - {n},
               visited := insert n (visited (s2\<lparr>env := e2\<rparr>)),
               sorted_acc := sorted_acc (s2\<lparr>env := e2\<rparr>) @ [n]\<rparr>)"
      using j by (rule visit_fresh)
    then have "visit (Suc depth) D n ?st = Inr (s'\<lparr>env := e2\<rparr>)"
      using fresh(4) by simp
    then show ?thesis by (rule exI)
  qed
next
  case (3 depth D st)
  then have "visit_each depth D [] (st\<lparr>env := e\<rparr>) = Inr (s'\<lparr>env := e\<rparr>)" by simp
  then show ?case by (rule exI)
next
  case (4 depth D dep deps st)
  from "4.prems" obtain s1 where s1: "visit depth D dep st = Inr s1"
    and r: "visit_each depth D deps s1 = Inr s'"
    by (rule visit_each_ConsE)
  from "4.IH"(1)[OF s1, of e] obtain e1 where
    a: "visit depth D dep (st\<lparr>env := e\<rparr>) = Inr (s1\<lparr>env := e1\<rparr>)" by blast
  from "4.IH"(2)[OF s1 r, of e1] obtain e2 where
    b: "visit_each depth D deps (s1\<lparr>env := e1\<rparr>) = Inr (s'\<lparr>env := e2\<rparr>)" by blast
  from a b have "visit_each depth D (dep # deps) (st\<lparr>env := e\<rparr>) = Inr (s'\<lparr>env := e2\<rparr>)"
    by simp
  then show ?case by (rule exI)
qed

lemma resolver_order_any_world:
  assumes "sortTablesByDependencies tables fks w = Inr (out, w')"
  shows "\<exists>w2'. sortTablesByDependencies tables fks w2 = Inr (out, w2')"
proof -
  have "length tables < Suc (length tables)" by simp
  then obtain D st where
    b: "build_dependencies (set (map fullName tables)) fks (initial_dependencies tables) = Inr D"
    and v: "visit_tables (Suc (length tables)) D tables (dfs_start w) = Inr st"
    by (rule resolver_run[where fks = fks and w = w])
  from sort_bounded_unfold[OF b v] assms
  have out: "out = map table_of_name (sorted_acc st)"
    by (simp add: sortTablesByDependencies_def)
  from v have "visit_each (Suc (length tables)) D (map fullName tables) (dfs_start w) = Inr st"
    by (simp add: visit_tables_eq)
  from visit_env(2)[OF this, of w2] obtain e' where
    "visit_each (Suc (length tables)) D (map fullName tables) ((dfs_start w)\<lparr>env := w2\<rparr>) =
       Inr (st\<lparr>env := e'\<rparr>)" by blast
  then have "visit_tables (Suc (length tables)) D tables (dfs_start w2) = Inr (st\<lparr>env := e'\<rparr>)"
    by (simp add: visit_tables_eq dfs_start_def)
  from sort_bounded_unfold[OF b this] out
  have "sortTablesByDependencies tables fks w2 = Inr (out, e')"
    by (simp add: sortTablesByDependencies_def)
  then show ?thesis by (rule exI)
qed

lemma data_migration_loop_trace:
  "trace (snd (data_migration_loop (set (map fullName tables)) ts w)) =
     trace w @ concat (map transfer_events (takeWhile (has_metadata tables) ts))"
  by (induction ts arbitrary: w) (simp_all add: transfer_events_def has_metadata_def)

lemma data_migration_loop_result:
  "fst (data_migration_loop (set (map fullName tables)) ts w) =
     (if list_all (has_metadata tables) ts then None else Some TypeError)"
  by (induction ts arbitrary: w) (simp_all add: has_metadata_def)

lemma has_metadata_as_object: "t \<in> set tables \<Longrightarrow> has_metadata tables (as_object t)"
  by (simp add: has_metadata_def as_object_def template_string_def fullName_def)

lemma migrate_phases_trace:
  assumes "sortTablesByDependencies tables fks w0 = Inr (sortedTables, w0')"
  shows "trace (snd (migrate_phases pg tables fks w)) =
           trace w @ map (\<lambda>fk. PgQuery (alter_statement fk)) fks @
           concat (map transfer_events (takeWhile (has_metadata tables) sortedTables))"
    and "fst (migrate_phases pg tables fks w) =
           (if list_all (has_metadata tables) sortedTables then None else Some TypeError)"
proof -
  let ?w2 = "log_call ''INFO'' ''PHASE'' ''Starting data migration for all tables...''
               (log_call ''SECTION'' [] ''PHASE 3: DATA MIGRATION''
                  (createForeignKeys pg fks w))"
  from resolver_order_any_world[OF assms, of ?w2] obtain w3 where
    r: "sortTablesByDependencies tables fks ?w2 = Inr (sortedTables, w3)" by blast
  obtain names cyc where
    "sortTablesByDependencies tables fks ?w2 =
        Inr (map table_of_name names,
             ?w2\<lparr>logger := logger ?w2 @ map cycle_log_entry cyc,
               stats := (stats ?w2)\<lparr>warnings := warnings (stats ?w2) + length cyc\<rparr>\<rparr>)"
    by (rule resolver_summary[of tables fks ?w2])
  with r have "w3 = ?w2\<lparr>logger := logger ?w2 @ map cycle_log_entry cyc,
               stats := (stats ?w2)\<lparr>warnings := warnings (stats ?w2) + length cyc\<rparr>\<rparr>"
    by simp
  then have "trace w3 = trace ?w2" by simp
  then have t3: "trace w3 = trace w @ map (\<lambda>fk. PgQuery (alter_statement fk)) fks"
    by (simp add: trace_log_call trace_createForeignKeys)
  have m: "migrate_phases pg tables fks w =
      data_migration_loop (set (map fullName tables)) sortedTables w3"
    using r by (simp add: migrate_phases_def Let_def)
  show "trace (snd (migrate_phases pg tables fks w)) =
           trace w @ map (\<lambda>fk. PgQuery (alter_statement fk)) fks @
           concat (map transfer_events (takeWhile (has_metadata tables) sortedTables))"
    unfolding m data_migration_loop_trace t3 by simp
  show "fst (migrate_phases pg tables fks w) =
           (if list_all (has_metadata tables) sortedTables then None else Some TypeError)"
    unfolding m by (rule data_migration_loop_result)
qed

text \<open>
  C3, as the code has it. \<open>createForeignKeys\<close> runs before the resolver is called and
  sends one \<open>ALTER TABLE\<close> statement per foreign key, in the order of the foreign-key
  list, whatever the database answers and whatever the tables are. The resolver's order
  governs the data-load loop only, which follows the statements; the loop loads the
  tables in the resolver's order, up to the first row whose rebuilt name has no
  metadata, and all of them when no schema or table name contains a dot.
\<close>

theorem migrate_phases_order:
  assumes "sortTablesByDependencies tables fks w0 = Inr (sortedTables, w0')"
  shows "trace (snd (migrate_phases pg tables fks w)) =
           trace w @ map (\<lambda>fk. PgQuery (alter_statement fk)) fks @
           concat (map transfer_events (takeWhile (has_metadata tables) sortedTables))
       \<and> altered_tables (map (\<lambda>fk. PgQuery (alter_statement fk)) fks) =
           map (\<lambda>fk. escapeIdentifier (fullTableName (tableSchema fk) (tableName fk))) fks
       \<and> ((\<forall>t\<in>set tables. dot_free t) \<longrightarrow>
            takeWhile (has_metadata tables) sortedTables = sortedTables \<and>
            fst (migrate_phases pg tables fks w) = None)"
proof -
  have three: "takeWhile (has_metadata tables) sortedTables = sortedTables \<and>
            fst (migrate_phases pg tables fks w) = None"
    if df: "\<forall>t\<in>set tables. dot_free t"
  proof -
    obtain names cyc where
      r: "sortTablesByDependencies tables fks w0 =
          Inr (map table_of_name names,
               w0\<lparr>logger := logger w0 @ map cycle_log_entry cyc,
                 stats := (stats w0)\<lparr>warnings := warnings (stats w0) + length cyc\<rparr>\<rparr>)"
      and d: "distinct names" and s: "set names = fullName ` set tables"
      by (rule resolver_summary[of tables fks w0])
    from dot_free_output[OF s d df] obtain ts where
      ts: "map table_of_name names = map as_object ts" "set ts = set tables" by blast
    with r assms have "sortedTables = map as_object ts" by simp
    with ts(2) have all: "\<forall>t\<in>set sortedTables. has_metadata tables t"
      by (auto simp: has_metadata_as_object)
    then have "takeWhile (has_metadata tables) sortedTables = sortedTables"
      by (simp add: takeWhile_eq_all_conv)
    moreover from all have "list_all (has_metadata tables) sortedTables"
      by (simp add: list_all_iff)
    ultimately show ?thesis
      using migrate_phases_trace(2)[OF assms, of pg w] by simp
  qed
  from migrate_phases_trace(1)[OF assms] altered_tables_alter_statements three
  show ?thesis by blast
qed

text \<open>
  The chain \<open>A \<rightarrow> B \<rightarrow> C\<close>: the statements for \<open>A\<close> and \<open>B\<close>, then the loads of \<open>C\<close>,
  \<open>B\<close> and \<open>A\<close>.
\<close>

theorem migrate_phases_order_witness:
  "sortTablesByDependencies
     [catalogue_table ''dbo'' ''A'', catalogue_table ''dbo'' ''B'', catalogue_table ''dbo'' ''C'']
     [reference ''fk1'' ''dbo'' ''A'' ''dbo'' ''B'', reference ''fk2'' ''dbo'' ''B'' ''dbo'' ''C'']
     initial_world =
   Inr ([as_object (catalogue_table ''dbo'' ''C''), as_object (catalogue_table ''dbo'' ''B''),
         as_object (catalogue_table ''dbo'' ''A'')], initial_world)
   \<and> dot_free (catalogue_table ''dbo'' ''A'') \<and> dot_free (catalogue_table ''dbo'' ''B'')
   \<and> dot_free (catalogue_table ''dbo'' ''C'')
   \<and> trace (snd (migrate_phases (\<lambda>h s. None)
       [catalogue_table ''dbo'' ''A'', catalogue_table ''dbo'' ''B'', catalogue_table ''dbo'' ''C'']
       [reference ''fk1'' ''dbo'' ''A'' ''dbo'' ''B'', reference ''fk2'' ''dbo'' ''B'' ''dbo'' ''C'']
       initial_world)) =
     [PgQuery (alter_statement (reference ''fk1'' ''dbo'' ''A'' ''dbo'' ''B'')),
      PgQuery (alter_statement (reference ''fk2'' ''dbo'' ''B'' ''dbo'' ''C'')),
      MigrateTableData ''dbo'' (Some ''C''), ResetSequences ''dbo'' (Some ''C''),
      MigrateTableData ''dbo'' (Some ''B''), ResetSequences ''dbo'' (Some ''B''),
      MigrateTableData ''dbo'' (Some ''A''), ResetSequences ''dbo'' (Some ''A'')]
   \<and> fst (migrate_phases (\<lambda>h s. None)
       [catalogue_table ''dbo'' ''A'', catalogue_table ''dbo'' ''B'', catalogue_table ''dbo'' ''C'']
       [reference ''fk1'' ''dbo'' ''A'' ''dbo'' ''B'', reference ''fk2'' ''dbo'' ''B'' ''dbo'' ''C'']
       initial_world) = None"
proof -
  let ?ts = "[catalogue_table ''dbo'' ''A'', catalogue_table ''dbo'' ''B'',
              catalogue_table ''dbo'' ''C'']"
  let ?fks = "[reference ''fk1'' ''dbo'' ''A'' ''dbo'' ''B'',
               reference ''fk2'' ''dbo'' ''B'' ''dbo'' ''C'']"
  let ?sorted = "[as_object (catalogue_table ''dbo'' ''C''), as_object (catalogue_table ''dbo'' ''B''),
         as_object (catalogue_table ''dbo'' ''A'')]"
  have df: "dot_free (catalogue_table ''dbo'' ''A'')" "dot_free (catalogue_table ''dbo'' ''B'')"
    "dot_free (catalogue_table ''dbo'' ''C'')"
    by (simp_all add: dot_free_def catalogue_table_def)
  from migrate_phases_order[OF chain_run, of "\<lambda>h s. None" initial_world] df
  have "trace (snd (migrate_phases (\<lambda>h s. None) ?ts ?fks initial_world)) =
           trace initial_world @ map (\<lambda>fk. PgQuery (alter_statement fk)) ?fks @
           concat (map transfer_events ?sorted)"
    and "fst (migrate_phases (\<lambda>h s. None) ?ts ?fks initial_world) = None"
    by simp_all
  then show ?thesis
    using chain_run df
    by (simp add: transfer_events_def as_object_def catalogue_table_def initial_world_def)
qed

text \<open>
  The claim C3 says the \<open>ALTER TABLE\<close> statements follow the resolver's order. On the
  chain they are sent for \<open>A\<close>, then \<open>B\<close>, while the resolver's order, in which the data
  is loaded, has \<open>B\<close> before \<open>A\<close>.
\<close>

theorem alter_order_is_not_resolver_order:
  "altered_tables (trace (snd (migrate_phases (\<lambda>h s. None)
       [catalogue_table ''dbo'' ''A'', catalogue_table ''dbo'' ''B'', catalogue_table ''dbo'' ''C'']
       [reference ''fk1'' ''dbo'' ''A'' ''dbo'' ''B'', reference ''fk2'' ''dbo'' ''B'' ''dbo'' ''C'']
       initial_world))) =
     [escapeIdentifier ''dbo_A'', escapeIdentifier ''dbo_B'']
   \<and> loaded_tables (trace (snd (migrate_phases (\<lambda>h s. None)
       [catalogue_table ''dbo'' ''A'', catalogue_table ''dbo'' ''B'', catalogue_table ''dbo'' ''C'']
       [reference ''fk1'' ''dbo'' ''A'' ''dbo'' ''B'', reference ''fk2'' ''dbo'' ''B'' ''dbo'' ''C'']
       initial_world))) =
     [escapeIdentifier ''dbo_C'', escapeIdentifier ''dbo_B'', escapeIdentifier ''dbo_A'']
   \<and> \<not> follows_order
       (altered_tables (trace (snd (migrate_phases (\<lambda>h s. None)
          [catalogue_table ''dbo'' ''A'', catalogue_table ''dbo'' ''B'', catalogue_table ''dbo'' ''C'']
          [reference ''fk1'' ''dbo'' ''A'' ''dbo'' ''B'', reference ''fk2'' ''dbo'' ''B'' ''dbo'' ''C'']
          initial_world))))
       (loaded_tables (trace (snd (migrate_phases (\<lambda>h s. None)
          [catalogue_table ''dbo'' ''A'', catalogue_table ''dbo'' ''B'', catalogue_table ''dbo'' ''C'']
          [reference ''fk1'' ''dbo'' ''A'' ''dbo'' ''B'', reference ''fk2'' ''dbo'' ''B'' ''dbo'' ''C'']
          initial_world))))"
proof -
  let ?ts = "[catalogue_table ''dbo'' ''A'', catalogue_table ''dbo'' ''B'',
              catalogue_table ''dbo'' ''C'']"
  let ?fks = "[reference ''fk1'' ''dbo'' ''A'' ''dbo'' ''B'',
               reference ''fk2'' ''dbo'' ''B'' ''dbo'' ''C'']"
  let ?tr = "trace (snd (migrate_phases (\<lambda>h s. None) ?ts ?fks initial_world))"
  have tr: "?tr =
     [PgQuery (alter_statement (reference ''fk1'' ''dbo'' ''A'' ''dbo'' ''B'')),
      PgQuery (alter_statement (reference ''fk2'' ''dbo'' ''B'' ''dbo'' ''C'')),
      MigrateTableData ''dbo'' (Some ''C''), ResetSequences ''dbo'' (Some ''C''),
      MigrateTableData ''dbo'' (Some ''B''), ResetSequences ''dbo'' (Some ''B''),
      MigrateTableData ''dbo'' (Some ''A''), ResetSequences ''dbo'' (Some ''A'')]"
    unfolding migrate_phases_trace(1)[OF chain_run]
    by (simp add: transfer_events_def as_object_def catalogue_table_def initial_world_def
        has_metadata_def template_string_def fullName_def)
  have a: "altered_tables ?tr = [escapeIdentifier ''dbo_A'', escapeIdentifier ''dbo_B'']"
    unfolding tr by (simp add: alter_statement_def reference_def fullTableName_def Let_def)
  have l: "loaded_tables ?tr =
     [escapeIdentifier ''dbo_C'', escapeIdentifier ''dbo_B'', escapeIdentifier ''dbo_A'']"
    unfolding tr by (simp add: fullTableName_def template_string_def)
  have "\<not> follows_order [escapeIdentifier ''dbo_A'', escapeIdentifier ''dbo_B'']
     [escapeIdentifier ''dbo_C'', escapeIdentifier ''dbo_B'', escapeIdentifier ''dbo_A'']"
    by (simp add: follows_order_def precedes_def escapeIdentifier_def dquote_def)
  with a l show ?thesis by simp
qed

end
